theory Spec2Isabelle
  imports Main "HOL-Library.AList" "HOL-Library.Multiset"
begin

section \<open>JavaScript values shared by the structures\<close>

text \<open>
  The only exception the modelled code can raise is the TypeError of reading a
  property of \<open>undefined\<close> or \<open>null\<close> (a non-null assertion \<open>x!\<close> is erased
  by the compiler and checks nothing).
\<close>

datatype error = TypeError

text \<open>
  A comparison function returns a number of which only the sign is read;
  it is modelled as an integer.
\<close>

type_synonym 'a CompareFn = "'a \<Rightarrow> 'a \<Rightarrow> int"

section \<open>MinHeap (src/unnamed/part_000)\<close>

text \<open>
  The private array \<open>#heap\<close> is a list; \<open>_compare\<close> is set once by the
  constructor and is passed to every operation.
\<close>

definition parent :: "nat \<Rightarrow> nat" where
  \<comment> \<open>\<open>Math.floor((index - 1) / 2)\<close>; the code calls it only after \<open>index !== 0\<close>.\<close>
  "parent index = (index - 1) div 2"

definition leftChild :: "nat \<Rightarrow> nat" where
  "leftChild index = 2 * index + 1"

definition rightChild :: "nat \<Rightarrow> nat" where
  "rightChild index = 2 * index + 2"

definition swap :: "'a list \<Rightarrow> nat \<Rightarrow> nat \<Rightarrow> 'a list" where
  \<comment> \<open>\<open>[h[i], h[j]] = [h[j], h[i]]\<close>\<close>
  "swap h i j = h[i := h ! j, j := h ! i]"

function heapifyUp :: "'a CompareFn \<Rightarrow> 'a list \<Rightarrow> nat \<Rightarrow> 'a list" where
  "heapifyUp cmp h index =
     (if index \<noteq> 0 \<and> cmp (h ! parent index) (h ! index) > 0
      then heapifyUp cmp (swap h (parent index) index) (parent index)
      else h)"
  by pat_completeness auto
termination
  by (relation "measure (\<lambda>(cmp, h, index). index)") (auto simp: parent_def)

definition pickMin :: "'a CompareFn \<Rightarrow> 'a list \<Rightarrow> nat \<Rightarrow> nat" where
  \<comment> \<open>the two \<open>if\<close>s of one round of \<open>heapifyDown\<close>: the value of \<open>currMin\<close>
      before the test \<open>currMin !== index\<close> (at the start of every round
      \<open>currMin\<close> equals \<open>index\<close>)\<close>
  "pickMin cmp h index =
     (let heapSize = length h;
          left = leftChild index;
          right = rightChild index;
          currMin = index;
          currMin = (if left < heapSize \<and> cmp (h ! left) (h ! currMin) < 0
                     then left else currMin);
          currMin = (if right < heapSize \<and> cmp (h ! right) (h ! currMin) < 0
                     then right else currMin)
      in currMin)"

function heapifyDown :: "'a CompareFn \<Rightarrow> 'a list \<Rightarrow> nat \<Rightarrow> 'a list" where
  "heapifyDown cmp h index =
     (let currMin = pickMin cmp h index
      in if currMin \<noteq> index
         then heapifyDown cmp (swap h index currMin) currMin
         else h)"
  by pat_completeness auto
termination
proof (relation "measure (\<lambda>(cmp, h, index). length h - index)", goal_cases)
  case 1
  show ?case by simp
next
  case (2 cmp h index currMin)
  then show ?case
    by (auto simp: pickMin_def Let_def swap_def leftChild_def rightChild_def
             split: if_splits)
qed

fun heapifyFrom :: "'a CompareFn \<Rightarrow> 'a list \<Rightarrow> nat \<Rightarrow> 'a list" where
  \<comment> \<open>the constructor's loop \<open>for (i = minNode; i >= 0; i--) heapifyDown(i)\<close>;
      the counter is \<open>i + 1\<close>, so that it stops at 0\<close>
  "heapifyFrom cmp h 0 = h"
| "heapifyFrom cmp h (Suc i) = heapifyFrom cmp (heapifyDown cmp h i) i"

definition MinHeap :: "'a CompareFn \<Rightarrow> 'a list option \<Rightarrow> 'a list" where
  \<comment> \<open>the constructor; \<open>minNode + 1 = Math.floor(length / 2)\<close>\<close>
  "MinHeap cmp args =
     (case args of
        Some a \<Rightarrow> heapifyFrom cmp a (length a div 2)
      | None \<Rightarrow> [])"

definition insert_heap :: "'a CompareFn \<Rightarrow> 'a list \<Rightarrow> 'a \<Rightarrow> 'a list" where
  \<comment> \<open>\<open>insert\<close>\<close>
  "insert_heap cmp h v = (let h1 = h @ [v] in heapifyUp cmp h1 (length h1 - 1))"

definition popMin :: "'a CompareFn \<Rightarrow> 'a list \<Rightarrow> 'a option \<times> 'a list" where
  \<comment> \<open>The guard \<open>if (!this.#heap) return null\<close> never fires: an array is truthy.
      \<open>None\<close> is JavaScript's \<open>undefined\<close>. On the empty array \<open>#heap[0]\<close> and
      \<open>#heap[-1]\<close> read \<open>undefined\<close>, the assignment makes the array
      \<open>[undefined]\<close>, \<open>pop()\<close> empties it again, \<open>heapifyDown(0)\<close> finds no child
      and \<open>undefined\<close> is returned.\<close>
  "popMin cmp h =
     (case h of
        [] \<Rightarrow> (None, [])
      | _ # _ \<Rightarrow>
          (let min = h ! 0;
               h1 = h[0 := h ! (length h - 1)];
               h2 = butlast h1
           in (Some min, heapifyDown cmp h2 0)))"

definition isEmpty_heap :: "'a list \<Rightarrow> bool" where
  "isEmpty_heap h = (\<not> (length h > 0))"

definition numeric :: "int CompareFn" where
  \<comment> \<open>\<open>(a, b) => a - b\<close>\<close>
  "numeric a b = a - b"

section \<open>Graph (src/Homeworks/Homework_9/Graph.ts)\<close>

datatype 'a GraphNode = GraphNode (node: 'a) (weight: int)

datatype 'a Edge = Edge (efrom: 'a) (eto: 'a) (eweight: int)

text \<open>
  A JavaScript \<open>Map\<close> keeps its entries in insertion order and \<open>set\<close> on a
  present key replaces the value in place: an association list with
  \<open>map_of\<close> for \<open>get\<close> and \<open>AList.update\<close> for \<open>set\<close>. Edge weights are the
  integers among the numbers.
\<close>

type_synonym 'a adjacency = "('a \<times> 'a GraphNode list) list"

definition has :: "('k \<times> 'v) list \<Rightarrow> 'k \<Rightarrow> bool" where
  "has m k = (map_of m k \<noteq> None)"

definition getAllNodes :: "'a adjacency \<Rightarrow> 'a list" where
  "getAllNodes g = map fst g"

definition getAllEdges :: "'a adjacency \<Rightarrow> 'a Edge list" where
  "getAllEdges g =
     concat (map (\<lambda>(n, connections).
                    map (\<lambda>adjNode. Edge n (node adjNode) (weight adjNode)) connections) g)"

definition addNode :: "'a adjacency \<Rightarrow> 'a \<Rightarrow> 'a adjacency \<times> bool" where
  "addNode g v =
     (let nodeExists = has g v
      in if \<not> nodeExists then (AList.update v [] g, True) else (g, False))"

definition push_to :: "'a adjacency \<Rightarrow> 'a \<Rightarrow> 'a GraphNode \<Rightarrow> 'a adjacency" where
  \<comment> \<open>\<open>this._adjacencyList.get(k)?.push(x)\<close>: nothing happens on a missing key\<close>
  "push_to g k x =
     (case map_of g k of
        None \<Rightarrow> g
      | Some l \<Rightarrow> AList.update k (l @ [x]) g)"

definition addEdge :: "'a adjacency \<Rightarrow> 'a \<Rightarrow> 'a \<Rightarrow> int \<Rightarrow> bool \<Rightarrow> 'a adjacency \<times> bool" where
  \<comment> \<open>the defaults of the source are \<open>weight = 1\<close> and \<open>undirected = true\<close>;
      \<open>frm\<close> is the parameter \<open>from\<close>\<close>
  "addEdge g frm to w undirected =
     (let g1 = fst (addNode g frm);
          g2 = fst (addNode g1 to);
          g3 = push_to g2 frm (GraphNode to w);
          g4 = (if undirected then push_to g3 to (GraphNode frm w) else g3)
      in (g4, True))"

definition getNeighbors :: "'a adjacency \<Rightarrow> 'a \<Rightarrow> 'a GraphNode list option" where
  "getNeighbors g n = map_of g n"

definition neighbors_or_empty :: "'a adjacency \<Rightarrow> 'a \<Rightarrow> 'a GraphNode list" where
  \<comment> \<open>\<open>graph.get(node) || []\<close>\<close>
  "neighbors_or_empty g n = (case map_of g n of None \<Rightarrow> [] | Some l \<Rightarrow> l)"

subsection \<open>dijkstra\<close>

text \<open>A tentative distance is a number or \<open>Infinity\<close>.\<close>

datatype num = Fin int | Infinity

fun num_add :: "num \<Rightarrow> int \<Rightarrow> num" where
  "num_add (Fin a) b = Fin (a + b)"
| "num_add Infinity b = Infinity"

fun num_less :: "num \<Rightarrow> num \<Rightarrow> bool" where
  "num_less (Fin a) (Fin b) = (a < b)"
| "num_less (Fin a) Infinity = True"
| "num_less Infinity b = False"

definition compareNodes :: "'a GraphNode CompareFn" where
  "compareNodes a b =
     (if weight a > weight b then 1 else if weight a < weight b then - 1 else 0)"

record 'a dstate =
  d_visited :: "'a set"  \<comment> \<open>the set \<open>visited\<close>\<close>
  nodeMap :: "('a \<times> (num \<times> 'a option)) list"
  p_queue :: "'a GraphNode list"

fun relax :: "'a GraphNode \<Rightarrow> 'a GraphNode list \<Rightarrow> 'a dstate \<Rightarrow> error + 'a dstate" where
  \<comment> \<open>the \<open>for\<close> loop over the neighbours of \<open>selectedNode\<close>; \<open>nodeMap.get(..)!\<close>
      of a missing key is \<open>undefined\<close>, and reading it raises\<close>
  "relax selectedNode [] s = Inr s"
| "relax selectedNode (neighbor # rest) s =
     (if node neighbor \<in> d_visited s then relax selectedNode rest s
      else case map_of (nodeMap s) (node neighbor) of
             None \<Rightarrow> Inl TypeError
           | Some (curr_weight, _) \<Rightarrow>
               (case map_of (nodeMap s) (node selectedNode) of
                  None \<Rightarrow> Inl TypeError
                | Some (d, _) \<Rightarrow>
                    (let totalWeight = num_add d (weight neighbor)
                     in if num_less totalWeight curr_weight
                        then relax selectedNode rest
                               (s\<lparr>nodeMap := AList.update (node neighbor)
                                                (totalWeight, Some (node selectedNode)) (nodeMap s),
                                  p_queue := insert_heap compareNodes (p_queue s) neighbor\<rparr>)
                        else relax selectedNode rest s)))"

partial_function (option) dijkstra_loop :: "'a adjacency \<Rightarrow> 'a dstate \<Rightarrow> (error + 'a dstate) option" where
  \<comment> \<open>\<open>while (!p_queue.isEmpty())\<close>; the outer \<open>None\<close> is a loop that never ends\<close>
  "dijkstra_loop g s =
     (if isEmpty_heap (p_queue s) then Some (Inr s)
      else case fst (popMin compareNodes (p_queue s)) of
             None \<Rightarrow> Some (Inl TypeError)
           | Some selectedNode \<Rightarrow>
               (case relax selectedNode (neighbors_or_empty g (node selectedNode))
                       (s\<lparr>d_visited := insert (node selectedNode) (d_visited s),
                          p_queue := snd (popMin compareNodes (p_queue s))\<rparr>) of
                  Inl e \<Rightarrow> Some (Inl e)
                | Inr s' \<Rightarrow> dijkstra_loop g s'))"

declare dijkstra_loop.simps [code]

partial_function (option) walk_back :: "('a \<times> (num \<times> 'a option)) list \<Rightarrow> 'a option \<Rightarrow> 'a list \<Rightarrow> (error + 'a list) option" where
  \<comment> \<open>\<open>while (currNode !== null) { path.push(currNode); currNode = nodeMap.get(currNode)![1] }\<close>\<close>
  "walk_back nm currNode path =
     (case currNode of
        None \<Rightarrow> Some (Inr path)
      | Some c \<Rightarrow>
          (case map_of nm c of
             None \<Rightarrow> Some (Inl TypeError)
           | Some (_, prev) \<Rightarrow> walk_back nm prev (path @ [c])))"

declare walk_back.simps [code]

definition init_nodeMap :: "'a adjacency \<Rightarrow> 'a \<Rightarrow> ('a \<times> (num \<times> 'a option)) list" where
  "init_nodeMap g frm =
     fold (\<lambda>n m. AList.update n (if n = frm then Fin 0 else Infinity, None) m)
          (getAllNodes g) []"

definition dijkstra :: "'a adjacency \<Rightarrow> 'a \<Rightarrow> 'a \<Rightarrow> (error + 'a list option) option" where
  \<comment> \<open>outer \<open>None\<close>: never returns; \<open>Inl\<close>: raises; \<open>Inr None\<close>: returns \<open>null\<close>;
      \<open>Inr (Some p)\<close>: returns the array \<open>p\<close>\<close>
  "dijkstra g frm to =
     (let negativeEdges = list_ex (\<lambda>edge. eweight edge < 0) (getAllEdges g)
      in if negativeEdges then Some (Inr None)
         else case dijkstra_loop g
                     \<lparr>d_visited = {}, nodeMap = init_nodeMap g frm,
                      p_queue = insert_heap compareNodes (MinHeap compareNodes None) (GraphNode frm 0)\<rparr> of
                None \<Rightarrow> None
              | Some (Inl e) \<Rightarrow> Some (Inl e)
              | Some (Inr s) \<Rightarrow>
                  (case walk_back (nodeMap s) (Some to) [] of
                     None \<Rightarrow> None
                   | Some (Inl e) \<Rightarrow> Some (Inl e)
                   | Some (Inr path) \<Rightarrow> Some (Inr (Some (rev path)))))"

definition cityMap :: "string adjacency" where
  "cityMap =
     fold (\<lambda>(a, b, w) g. fst (addEdge g a b w True))
       [(''A'', ''B'', 4), (''A'', ''C'', 2), (''B'', ''C'', 1), (''B'', ''D'', 5),
        (''C'', ''D'', 8), (''C'', ''E'', 10), (''D'', ''E'', 2), (''D'', ''Z'', 6),
        (''E'', ''Z'', 3)] []"

subsection \<open>Routes and their weights\<close>

text \<open>
  The total edge weight of a node path: each step takes the first entry for
  the next node in the adjacency list of the current one; \<open>None\<close> when a step
  is not an edge.
\<close>

fun pathWeight :: "'a adjacency \<Rightarrow> 'a list \<Rightarrow> int option" where
  "pathWeight g [] = Some 0"
| "pathWeight g [x] = Some 0"
| "pathWeight g (x # y # r) =
     (case find (\<lambda>nb. node nb = y) (neighbors_or_empty g x) of
        None \<Rightarrow> None
      | Some nb \<Rightarrow> map_option (\<lambda>t. weight nb + t) (pathWeight g (y # r)))"

text \<open>A route from \<open>a\<close> to \<open>z\<close> is a chain of edges of the graph.\<close>

fun route :: "'a adjacency \<Rightarrow> 'a \<Rightarrow> 'a \<Rightarrow> 'a Edge list \<Rightarrow> bool" where
  "route g a z [] = (a = z)"
| "route g a z (e # es) = (e \<in> set (getAllEdges g) \<and> efrom e = a \<and> route g (eto e) z es)"

definition routeWeight :: "'a Edge list \<Rightarrow> int" where
  "routeWeight es = sum_list (map eweight es)"

text \<open>The distance of every city of \<open>cityMap\<close> from A.\<close>

definition cityDist :: "string \<Rightarrow> int" where
  "cityDist c =
     (if c = ''A'' then 0 else if c = ''C'' then 2 else if c = ''B'' then 3
      else if c = ''D'' then 8 else if c = ''E'' then 10 else 13)"

section \<open>Stack and MinMaxStack (src/Homeworks/Homework_9/Stack.ts)\<close>

text \<open>
  The element type \<open>T\<close> is not constrained, so an element may be \<open>null\<close> or
  \<open>undefined\<close>, and \<open>pop\<close> tests the value it popped: the elements of the
  arrays, and the results of \<open>pop\<close>, \<open>getMin\<close> and \<open>getMax\<close>, are values of
  \<open>'a nullable\<close>. The array \<open>#stack\<close> is a list whose last element is the top.
  A comparison function is called on such values; of its result only the
  sign is read, and \<open>NaN\<close>, neither negative nor positive, is 0.
\<close>

datatype 'a nullable = Null | Undefined | Value 'a

definition push_stack :: "'a nullable list \<Rightarrow> 'a nullable \<Rightarrow> 'a nullable list" where
  "push_stack st x = st @ [x]"

definition array_pop :: "'a nullable list \<Rightarrow> 'a nullable \<times> 'a nullable list" where
  \<comment> \<open>\<open>Array.prototype.pop\<close>: \<open>undefined\<close> on the empty array\<close>
  "array_pop a = (case a of [] \<Rightarrow> (Undefined, []) | _ # _ \<Rightarrow> (last a, butlast a))"

definition pop_stack :: "'a nullable list \<Rightarrow> 'a nullable \<times> 'a nullable list" where
  \<comment> \<open>\<open>this.#stack.pop() ?? null\<close>\<close>
  "pop_stack st =
     (let (x, st') = array_pop st
      in (if x = Null \<or> x = Undefined then Null else x, st'))"

definition isEmpty_stack :: "'a nullable list \<Rightarrow> bool" where
  "isEmpty_stack st = (length st = 0)"

definition top_of :: "'a nullable list \<Rightarrow> 'a nullable" where
  \<comment> \<open>\<open>a[a.length - 1]\<close>, \<open>undefined\<close> on the empty array\<close>
  "top_of a = (case a of [] \<Rightarrow> Undefined | _ # _ \<Rightarrow> last a)"

record 'a MinMaxStack =
  stack :: "'a nullable list"
  minStack :: "'a nullable list"
  maxStack :: "'a nullable list"

definition getMin :: "'a MinMaxStack \<Rightarrow> 'a nullable" where
  "getMin s = (if \<not> isEmpty_stack (stack s) then top_of (minStack s) else Null)"

definition getMax :: "'a MinMaxStack \<Rightarrow> 'a nullable" where
  "getMax s = (if \<not> isEmpty_stack (stack s) then top_of (maxStack s) else Null)"

definition updateMinStack ::
    "'a nullable CompareFn \<Rightarrow> 'a MinMaxStack \<Rightarrow> 'a nullable \<Rightarrow> 'a MinMaxStack" where
  "updateMinStack cmp s v =
     (if length (minStack s) = 0 \<or> cmp v (getMin s) < 0
      then s\<lparr>minStack := minStack s @ [v]\<rparr>
      else s\<lparr>minStack := minStack s @ [getMin s]\<rparr>)"

definition updateMaxStack ::
    "'a nullable CompareFn \<Rightarrow> 'a MinMaxStack \<Rightarrow> 'a nullable \<Rightarrow> 'a MinMaxStack" where
  "updateMaxStack cmp s v =
     (if length (maxStack s) = 0 \<or> cmp v (getMax s) > 0
      then s\<lparr>maxStack := maxStack s @ [v]\<rparr>
      else s\<lparr>maxStack := maxStack s @ [getMax s]\<rparr>)"

definition MinMaxStack_new ::
    "'a nullable CompareFn \<Rightarrow> 'a nullable list option \<Rightarrow> 'a MinMaxStack" where
  \<comment> \<open>the constructor: \<open>super(initialValues)\<close>, then the shadow arrays are
      filled value by value\<close>
  "MinMaxStack_new cmp initialValues =
     (case initialValues of
        None \<Rightarrow> \<lparr>stack = [], minStack = [], maxStack = []\<rparr>
      | Some vs \<Rightarrow>
          fold (\<lambda>v s. updateMaxStack cmp (updateMinStack cmp s v) v) vs
               \<lparr>stack = vs, minStack = [], maxStack = []\<rparr>)"

definition push :: "'a nullable CompareFn \<Rightarrow> 'a MinMaxStack \<Rightarrow> 'a nullable \<Rightarrow> 'a MinMaxStack" where
  "push cmp s v =
     updateMaxStack cmp (updateMinStack cmp (s\<lparr>stack := push_stack (stack s) v\<rparr>) v) v"

definition pop :: "'a MinMaxStack \<Rightarrow> 'a nullable \<times> 'a MinMaxStack" where
  \<comment> \<open>\<open>popped = super.pop()\<close>; the shadow arrays are popped \<open>if (popped !== null)\<close>\<close>
  "pop s =
     (let (popped, st) = pop_stack (stack s);
          s1 = s\<lparr>stack := st\<rparr>
      in if popped \<noteq> Null
         then (popped, s1\<lparr>minStack := snd (array_pop (minStack s1)),
                           maxStack := snd (array_pop (maxStack s1))\<rparr>)
         else (popped, s1))"

datatype 'v stack_op = Push 'v | Pop

fun apply_op :: "'a nullable CompareFn \<Rightarrow> 'a MinMaxStack \<Rightarrow> 'a nullable stack_op \<Rightarrow> 'a MinMaxStack" where
  "apply_op cmp s (Push v) = push cmp s v"
| "apply_op cmp s Pop = snd (pop s)"

definition nullsFirst :: "int nullable CompareFn" where
  \<comment> \<open>\<open>(a, b) => (a ?? -Infinity) - (b ?? -Infinity)\<close>, a comparator for
      \<open>number | null\<close>; on two numbers it is \<open>a - b\<close>\<close>
  "nullsFirst a b =
     (case (a, b) of
        (Value x, Value y) \<Rightarrow> x - y
      | (Value x, _) \<Rightarrow> 1
      | (_, Value y) \<Rightarrow> - 1
      | _ \<Rightarrow> 0)"

text \<open>
  A comparator is a total order when its sign is antisymmetric and \<open>\<le> 0\<close> is
  transitive; two elements may compare equal.
\<close>

definition total_order :: "'a CompareFn \<Rightarrow> bool" where
  "total_order cmp \<longleftrightarrow>
     (\<forall>a b. cmp a b < 0 \<longleftrightarrow> 0 < cmp b a) \<and>
     (\<forall>a b c. cmp a b \<le> 0 \<and> cmp b c \<le> 0 \<longrightarrow> cmp a c \<le> 0)"

definition on_values :: "'a nullable CompareFn \<Rightarrow> 'a CompareFn" where
  \<comment> \<open>a comparator on the elements that are neither \<open>null\<close> nor \<open>undefined\<close>\<close>
  "on_values cmp a b = cmp (Value a) (Value b)"

definition is_min :: "'a CompareFn \<Rightarrow> 'a list \<Rightarrow> 'a \<Rightarrow> bool" where
  "is_min cmp xs m \<longleftrightarrow> m \<in> set xs \<and> (\<forall>x \<in> set xs. cmp m x \<le> 0)"

definition is_max :: "'a CompareFn \<Rightarrow> 'a list \<Rightarrow> 'a \<Rightarrow> bool" where
  "is_max cmp xs m \<longleftrightarrow> m \<in> set xs \<and> (\<forall>x \<in> set xs. cmp x m \<le> 0)"

definition shadow_ok :: "'a CompareFn \<Rightarrow> 'a list \<Rightarrow> 'a list \<Rightarrow> 'a list \<Rightarrow> bool" where
  \<comment> \<open>entry \<open>i\<close> of each shadow array is the minimum (maximum) of the first
      \<open>i + 1\<close> elements\<close>
  "shadow_ok cmp xs mins maxs \<longleftrightarrow>
     length mins = length xs \<and> length maxs = length xs \<and>
     (\<forall>i < length xs. is_min cmp (take (Suc i) xs) (mins ! i) \<and>
                       is_max cmp (take (Suc i) xs) (maxs ! i))"

definition shadow_min :: "'a CompareFn \<Rightarrow> 'a list \<Rightarrow> 'a \<Rightarrow> 'a" where
  \<comment> \<open>what \<open>updateMinStack\<close> appends when no element is \<open>null\<close> or \<open>undefined\<close>\<close>
  "shadow_min cmp mins v = (if mins = [] \<or> cmp v (last mins) < 0 then v else last mins)"

definition shadow_max :: "'a CompareFn \<Rightarrow> 'a list \<Rightarrow> 'a \<Rightarrow> 'a" where
  "shadow_max cmp maxs v = (if maxs = [] \<or> 0 < cmp v (last maxs) then v else last maxs)"

definition mm_inv :: "'a nullable CompareFn \<Rightarrow> 'a MinMaxStack \<Rightarrow> 'a list \<Rightarrow> bool" where
  \<comment> \<open>the stack holds the values \<open>xs\<close>, none of them \<open>null\<close> or \<open>undefined\<close>, and
      the shadow arrays hold their running minima and maxima\<close>
  "mm_inv cmp s xs \<longleftrightarrow>
     (\<exists>mins maxs. stack s = map Value xs \<and> minStack s = map Value mins \<and>
                  maxStack s = map Value maxs \<and> shadow_ok (on_values cmp) xs mins maxs)"

section \<open>LinkedList (src/unnamed/part_002)\<close>

text \<open>
  Nodes are objects that several references may share, so they live in a
  store: every address holds a node, \<open>new Node(value)\<close> takes the address
  \<open>nfree\<close>. A reference that may be \<open>null\<close> is an \<open>addr option\<close>.
\<close>

type_synonym addr = nat

record 'a Node =
  data :: 'a
  nxt :: "addr option"

record 'a store =
  cell :: "addr \<Rightarrow> 'a Node"
  nfree :: addr

record LinkedList =
  head :: "addr option"
  tail :: "addr option"
  list_size :: int

definition set_next :: "'a store \<Rightarrow> addr \<Rightarrow> addr option \<Rightarrow> 'a store" where
  \<comment> \<open>\<open>a.next = n\<close>\<close>
  "set_next h a n = h\<lparr>cell := (cell h)(a := (cell h a)\<lparr>nxt := n\<rparr>)\<rparr>"

definition new_Node :: "'a store \<Rightarrow> 'a \<Rightarrow> 'a store \<times> addr" where
  "new_Node h v =
     (h\<lparr>cell := (cell h)(nfree h := \<lparr>data = v, nxt = None\<rparr>), nfree := nfree h + 1\<rparr>, nfree h)"

definition insert_list :: "'a store \<times> LinkedList \<Rightarrow> 'a \<Rightarrow> error + 'a store \<times> LinkedList" where
  \<comment> \<open>\<open>insert\<close>; \<open>this._tail!.next = newNode\<close> raises when \<open>_tail\<close> is \<open>null\<close>\<close>
  "insert_list hl v =
     (let (h, l) = hl; (h1, newNode) = new_Node h v
      in case head l of
           None \<Rightarrow> Inr (h1, l\<lparr>head := Some newNode, tail := Some newNode, list_size := list_size l + 1\<rparr>)
         | Some _ \<Rightarrow>
             (case tail l of
                None \<Rightarrow> Inl TypeError
              | Some t \<Rightarrow> Inr (set_next h1 t (Some newNode),
                                l\<lparr>tail := Some newNode, list_size := list_size l + 1\<rparr>)))"

fun LinkedList_new :: "'a store \<Rightarrow> 'a list \<Rightarrow> error + 'a store \<times> LinkedList" where
  \<comment> \<open>the constructor: \<open>args.forEach((value) => this.insert(value))\<close>\<close>
  "LinkedList_new h args =
     fold (\<lambda>v r. case r of Inl e \<Rightarrow> Inl e | Inr hl \<Rightarrow> insert_list hl v) args
          (Inr (h, \<lparr>head = None, tail = None, list_size = 0\<rparr>))"

partial_function (option) pop_walk :: "'a store \<Rightarrow> addr \<Rightarrow> addr option" where
  \<comment> \<open>\<open>while (cur.next && cur.next.next) cur = cur.next\<close>; \<open>None\<close> when the
      loop never ends\<close>
  "pop_walk h cur =
     (case nxt (cell h cur) of
        None \<Rightarrow> Some cur
      | Some n \<Rightarrow> (case nxt (cell h n) of None \<Rightarrow> Some cur | Some _ \<Rightarrow> pop_walk h n))"

declare pop_walk.simps [code]

definition pop_list :: "'a store \<times> LinkedList \<Rightarrow> ('a option \<times> 'a store \<times> LinkedList) option" where
  \<comment> \<open>\<open>pop\<close>; the result \<open>None\<close> of the first component is \<open>undefined\<close>\<close>
  "pop_list hl =
     (let (h, l) = hl
      in case (tail l, head l) of
           (Some t, Some hd0) \<Rightarrow>
             (case pop_walk h hd0 of
                None \<Rightarrow> None
              | Some cur \<Rightarrow>
                  Some (Some (data (cell h t)), set_next h cur None,
                        l\<lparr>tail := Some cur, list_size := list_size l - 1\<rparr>))
         | _ \<Rightarrow> Some (None, h, l))"

definition shift_list :: "'a store \<times> LinkedList \<Rightarrow> addr option \<times> 'a store \<times> LinkedList" where
  \<comment> \<open>\<open>shift\<close>; it returns the removed node\<close>
  "shift_list hl =
     (let (h, l) = hl
      in case head l of
           None \<Rightarrow> (None, h, l)
         | Some shifted \<Rightarrow> (Some shifted, h, l\<lparr>head := nxt (cell h shifted), list_size := list_size l - 1\<rparr>))"

partial_function (option) delete_walk ::
    "('a \<Rightarrow> bool) \<Rightarrow> 'a store \<Rightarrow> LinkedList \<Rightarrow> addr \<Rightarrow> (bool \<times> 'a store \<times> LinkedList) option" where
  \<comment> \<open>the \<open>while (cur.next !== null)\<close> loop that \<open>delete\<close> and \<open>deleteBy\<close> share;
      \<open>delete\<close> tests \<open>cur.next.data === value\<close>\<close>
  "delete_walk filterFn h l cur =
     (case nxt (cell h cur) of
        None \<Rightarrow> Some (False, h, l)
      | Some n \<Rightarrow>
          if filterFn (data (cell h n))
          then (let h1 = set_next h cur (nxt (cell h n));
                    l1 = (if nxt (cell h1 cur) = None then l\<lparr>tail := Some cur\<rparr> else l)
                in Some (True, h1, l1\<lparr>list_size := list_size l1 - 1\<rparr>))
          else delete_walk filterFn h l n)"

declare delete_walk.simps [code]

definition deleteBy_list ::
    "'a store \<times> LinkedList \<Rightarrow> ('a \<Rightarrow> bool) \<Rightarrow> (bool \<times> 'a store \<times> LinkedList) option" where
  "deleteBy_list hl filterFn =
     (let (h, l) = hl
      in case head l of
           None \<Rightarrow> Some (False, h, l)
         | Some hd0 \<Rightarrow>
             if filterFn (data (cell h hd0))
             then (let l1 = l\<lparr>head := nxt (cell h hd0)\<rparr>;
                       l2 = (if head l1 = None then l1\<lparr>tail := head l1\<rparr> else l1)
                   in Some (True, h, l2\<lparr>list_size := list_size l2 - 1\<rparr>))
             else delete_walk filterFn h l hd0)"

definition delete_list ::
    "'a store \<times> LinkedList \<Rightarrow> 'a \<Rightarrow> (bool \<times> 'a store \<times> LinkedList) option" where
  "delete_list hl v = deleteBy_list hl (\<lambda>d. d = v)"

partial_function (option) cycle_meet ::
    "'a store \<Rightarrow> addr option \<Rightarrow> addr option \<Rightarrow> (error + bool \<times> addr option \<times> addr option) option" where
  \<comment> \<open>the first loop of \<open>cycle\<close>; it returns \<open>met\<close>, \<open>slow\<close> and \<open>fast\<close>\<close>
  "cycle_meet h slow fast =
     (case fast of
        None \<Rightarrow> Some (Inr (False, slow, fast))
      | Some f \<Rightarrow>
          (case nxt (cell h f) of
             None \<Rightarrow> Some (Inr (False, slow, fast))
           | Some fn \<Rightarrow>
               (case slow of
                  None \<Rightarrow> Some (Inl TypeError)
                | Some s \<Rightarrow>
                    (let slow' = nxt (cell h s); fast' = nxt (cell h fn)
                     in if slow' = fast' then Some (Inr (True, slow', fast'))
                        else cycle_meet h slow' fast'))))"

declare cycle_meet.simps [code]

partial_function (option) cycle_entry ::
    "'a store \<Rightarrow> addr option \<Rightarrow> addr option \<Rightarrow> (error + addr option) option" where
  \<comment> \<open>\<open>while (slow !== fast) { slow = slow!.next; fast = fast!.next }\<close>\<close>
  "cycle_entry h slow fast =
     (if slow \<noteq> fast
      then case (slow, fast) of
             (Some s, Some f) \<Rightarrow> cycle_entry h (nxt (cell h s)) (nxt (cell h f))
           | _ \<Rightarrow> Some (Inl TypeError)
      else Some (Inr slow))"

declare cycle_entry.simps [code]

definition cycle :: "'a store \<Rightarrow> addr \<Rightarrow> (error + addr option) option" where
  \<comment> \<open>the parameter is a \<open>Node<T>\<close>, so that \<open>if (!root) return null\<close> is not taken\<close>
  "cycle h root =
     (case cycle_meet h (Some root) (Some root) of
        None \<Rightarrow> None
      | Some (Inl e) \<Rightarrow> Some (Inl e)
      | Some (Inr (met, slow, fast)) \<Rightarrow>
          if \<not> met then Some (Inr None) else cycle_entry h (Some root) fast)"

partial_function (option) from_walk ::
    "'a store \<Rightarrow> addr option \<Rightarrow> bool \<Rightarrow> addr \<Rightarrow> int \<Rightarrow> ('a store \<times> addr \<times> int) option" where
  \<comment> \<open>the loop of \<open>from\<close> over \<open>visited\<close>, \<open>tail\<close> and \<open>cnt\<close>\<close>
  "from_walk h cyc visited t cnt =
     (case nxt (cell h t) of
        None \<Rightarrow> Some (h, t, cnt)
      | Some n \<Rightarrow>
          if cyc \<noteq> None \<and> Some n = cyc
          then (if visited then Some (set_next h t None, t, cnt)
                else from_walk h cyc True n (cnt + 1))
          else from_walk h cyc visited n (cnt + 1))"

declare from_walk.simps [code]

definition from_root :: "'a store \<Rightarrow> addr \<Rightarrow> (error + 'a store \<times> LinkedList) option" where
  \<comment> \<open>\<open>LinkedList.from(root)\<close>\<close>
  "from_root h root =
     (case cycle h root of
        None \<Rightarrow> None
      | Some (Inl e) \<Rightarrow> Some (Inl e)
      | Some (Inr cyc) \<Rightarrow>
          (case from_walk h cyc False root 1 of
             None \<Rightarrow> None
           | Some (h', t, cnt) \<Rightarrow>
               Some (Inr (h', \<lparr>head = Some root, tail = Some t, list_size = cnt\<rparr>))))"

text \<open>The nodes reached from a reference by following \<open>next\<close> up to \<open>null\<close>.\<close>

fun chain :: "'a store \<Rightarrow> addr option \<Rightarrow> addr list \<Rightarrow> bool" where
  "chain h p [] = (p = None)"
| "chain h p (a # as) = (p = Some a \<and> chain h (nxt (cell h a)) as)"

definition store0 :: "int store" where
  \<comment> \<open>a store in which nothing is allocated yet\<close>
  "store0 = \<lparr>cell = (\<lambda>_. \<lparr>data = 0, nxt = None\<rparr>), nfree = 0\<rparr>"

definition two_cycle :: "int store" where
  \<comment> \<open>\<open>root = {data: 1, next: n2}\<close> at address 0 and \<open>n2 = {data: 2, next: root}\<close>
      at address 1\<close>
  "two_cycle =
     \<lparr>cell = (\<lambda>_. \<lparr>data = 0, nxt = None\<rparr>)
               (0 := \<lparr>data = 1, nxt = Some 1\<rparr>, 1 := \<lparr>data = 2, nxt = Some 0\<rparr>),
      nfree = 2\<rparr>"

definition example_cycle :: "int store" where
  \<comment> \<open>the chain of the source's example: root, n2, n3, n4 and back to n2\<close>
  "example_cycle =
     \<lparr>cell = (\<lambda>_. \<lparr>data = 0, nxt = None\<rparr>)
               (0 := \<lparr>data = 1, nxt = Some 1\<rparr>, 1 := \<lparr>data = 2, nxt = Some 2\<rparr>,
                2 := \<lparr>data = 3, nxt = Some 3\<rparr>, 3 := \<lparr>data = 4, nxt = Some 1\<rparr>),
      nfree = 4\<rparr>"

section \<open>Queue (src/unnamed/part_003)\<close>

text \<open>
  The chain of nodes from \<open>#head\<close> is private to the queue and never shared:
  it is the list \<open>items\<close> of its data, \<open>enqueue\<close> links a node after \<open>#tail\<close>
  (the last node whenever \<open>#head\<close> is set) and \<open>dequeue\<close> moves \<open>#head\<close> on.
  \<open>_size\<close> is kept as the counter it is. \<open>enqueued\<close> is a ghost field, never
  read: every value given to \<open>enqueue\<close> so far, in order.
\<close>

record 'a Queue =
  items :: "'a list"
  q_size :: int
  enqueued :: "'a list"

definition enqueue :: "'a Queue \<Rightarrow> 'a \<Rightarrow> 'a Queue" where
  "enqueue q v = q\<lparr>items := items q @ [v], q_size := q_size q + 1, enqueued := enqueued q @ [v]\<rparr>"

definition dequeue :: "'a Queue \<Rightarrow> 'a option \<times> 'a Queue" where
  \<comment> \<open>\<open>None\<close> is the \<open>null\<close> returned on the empty queue\<close>
  "dequeue q =
     (case items q of
        [] \<Rightarrow> (None, q)
      | val # rest \<Rightarrow> (Some val, q\<lparr>items := rest, q_size := q_size q - 1\<rparr>))"

definition Queue_new :: "'a list \<Rightarrow> 'a Queue" where
  \<comment> \<open>the constructor: \<open>args.forEach((val) => this.enqueue(val))\<close>\<close>
  "Queue_new args = fold (\<lambda>val q. enqueue q val) args \<lparr>items = [], q_size = 0, enqueued = []\<rparr>"

section \<open>The searches of Graph.ts\<close>

text \<open>
  Both searches test their start node for truthiness, so the node type is
  the type of JavaScript values: numbers (the integers among them and
  \<open>NaN\<close>), strings, booleans, \<open>null\<close>, \<open>undefined\<close> and object references. The
  key equality of \<open>Map\<close> and \<open>Set\<close> (SameValueZero) is equality on these
  values: it finds \<open>NaN\<close>. The operator \<open>===\<close> is equality except that
  \<open>NaN === NaN\<close> is false.
\<close>

datatype jsval = JNum int | JNaN | JStr string | JBool bool | JNull | JUndefined | JObj nat

definition strict_eq :: "jsval \<Rightarrow> jsval \<Rightarrow> bool" where
  \<comment> \<open>\<open>a === b\<close>\<close>
  "strict_eq a b \<longleftrightarrow> a = b \<and> a \<noteq> JNaN"

fun ToBoolean :: "jsval \<Rightarrow> bool" where
  "ToBoolean (JNum n) = (n \<noteq> 0)"
| "ToBoolean JNaN = False"
| "ToBoolean (JStr s) = (s \<noteq> [])"
| "ToBoolean (JBool b) = b"
| "ToBoolean JNull = False"
| "ToBoolean JUndefined = False"
| "ToBoolean (JObj r) = True"

text \<open>
  \<open>search\<close> is the recursive closure of \<open>DepthFirstSearch\<close> and \<open>search_for\<close> its
  \<open>for\<close> loop. The set \<open>visited\<close> is shared by all calls, so each call returns
  it. The first argument bounds the depth of the recursion: the result is
  \<open>None\<close> when the bound is reached.
\<close>

fun search :: "nat \<Rightarrow> jsval adjacency \<Rightarrow> jsval \<Rightarrow> jsval \<Rightarrow> jsval list \<Rightarrow> jsval set
                \<Rightarrow> (jsval list option \<times> jsval set) option"
and search_for :: "nat \<Rightarrow> jsval adjacency \<Rightarrow> jsval \<Rightarrow> jsval list \<Rightarrow> jsval GraphNode list \<Rightarrow> jsval set
                \<Rightarrow> (jsval list option \<times> jsval set) option" where
  "search 0 graph target n path visited = None"
| "search (Suc fuel) graph target n path visited =
     (if \<not> ToBoolean n \<or> n \<in> visited then Some (None, visited)
      else if strict_eq n target then Some (Some path, visited)
      else search_for fuel graph target path (neighbors_or_empty graph n) (insert n visited))"
| "search_for fuel graph target path [] visited = Some (None, visited)"
| "search_for fuel graph target path (neighbor # rest) visited =
     (if node neighbor \<notin> visited
      then (case search fuel graph target (node neighbor) (path @ [node neighbor]) visited of
              None \<Rightarrow> None
            | Some (Some path_found, visited') \<Rightarrow> Some (Some path_found, visited')
            | Some (None, visited') \<Rightarrow> search_for fuel graph target path rest visited')
      else search_for fuel graph target path rest visited)"

definition DepthFirstSearch :: "nat \<Rightarrow> jsval adjacency \<Rightarrow> jsval \<Rightarrow> jsval \<Rightarrow> jsval list option option" where
  "DepthFirstSearch fuel adjecencyList startNode target =
     (if \<not> ToBoolean startNode then Some None
      else map_option fst (search fuel adjecencyList target startNode [startNode] {}))"

definition bfs_visit :: "'a list \<Rightarrow> 'a GraphNode \<Rightarrow> 'a set \<times> ('a \<times> 'a list) Queue
                         \<Rightarrow> 'a set \<times> ('a \<times> 'a list) Queue" where
  \<comment> \<open>the body of the \<open>for\<close> loop over the neighbours\<close>
  "bfs_visit path neighbor vq =
     (let (visited, queue) = vq
      in if node neighbor \<notin> visited
         then (insert (node neighbor) visited,
               enqueue queue (node neighbor, path @ [node neighbor]))
         else (visited, queue))"

definition all_targets :: "'a adjacency \<Rightarrow> 'a set" where
  \<comment> \<open>every node that some adjacency array mentions\<close>
  "all_targets adj = node ` (\<Union>(k, l) \<in> set adj. set l)"

function bfs_loop :: "jsval adjacency \<Rightarrow> jsval \<Rightarrow> jsval set \<Rightarrow> (jsval \<times> jsval list) Queue
                       \<Rightarrow> (error + jsval list option) \<times> (jsval \<times> jsval list) Queue" where
  \<comment> \<open>\<open>while (queue.size > 0)\<close>; destructuring the \<open>null\<close> of an empty queue
      raises. The queue at the exit is returned with the result.\<close>
  "bfs_loop adj target visited queue =
     (if q_size queue > 0
      then (case dequeue queue of
              (None, q1) \<Rightarrow> (Inl TypeError, q1)
            | (Some (currNode, path), q1) \<Rightarrow>
                if strict_eq currNode target then (Inr (Some path), q1)
                else (case fold (bfs_visit path) (neighbors_or_empty adj currNode) (visited, q1) of
                        (visited', queue') \<Rightarrow> bfs_loop adj target visited' queue'))
      else (Inr None, queue))"
  by pat_completeness auto
termination
proof (relation "measure (\<lambda>(adj, target, visited, queue).
                   2 * card (all_targets adj - visited) + length (items queue))", goal_cases)
  case 1
  show ?case by simp
next
  case (2 adj target visited queue x y x2 currNode path visited' queue')
  have fin: "finite (all_targets adj)"
    by (auto simp: all_targets_def)
  have step: "2 * card (all_targets adj - fst (fold (bfs_visit p) nbs (vis, q)))
                + length (items (snd (fold (bfs_visit p) nbs (vis, q))))
              \<le> 2 * card (all_targets adj - vis) + length (items q)"
    if "node ` set nbs \<subseteq> all_targets adj" for p nbs vis and q :: "(jsval \<times> jsval list) Queue"
    using that
  proof (induction nbs arbitrary: vis q)
    case Nil
    then show ?case by simp
  next
    case (Cons nb nbs)
    show ?case
    proof (cases "node nb \<in> vis")
      case True
      then have "bfs_visit p nb (vis, q) = (vis, q)"
        by (simp add: bfs_visit_def)
      with Cons show ?thesis by simp
    next
      case False
      with Cons.prems have "node nb \<in> all_targets adj - vis" by auto
      with fin have "card (all_targets adj - insert (node nb) vis) < card (all_targets adj - vis)"
        by (intro psubset_card_mono) auto
      moreover have "2 * card (all_targets adj - fst (fold (bfs_visit p) nbs (insert (node nb) vis, enqueue q (node nb, p @ [node nb]))))
                + length (items (snd (fold (bfs_visit p) nbs (insert (node nb) vis, enqueue q (node nb, p @ [node nb])))))
              \<le> 2 * card (all_targets adj - insert (node nb) vis) + length (items (enqueue q (node nb, p @ [node nb])))"
        using Cons.prems by (intro Cons.IH) auto
      moreover have "bfs_visit p nb (vis, q) = (insert (node nb) vis, enqueue q (node nb, p @ [node nb]))"
        using False by (simp add: bfs_visit_def)
      moreover have "length (items (enqueue q (node nb, p @ [node nb]))) = Suc (length (items q))"
        by (simp add: enqueue_def)
      ultimately show ?thesis
        by simp
    qed
  qed
  have sub: "node ` set (neighbors_or_empty adj currNode) \<subseteq> all_targets adj"
  proof (cases "map_of adj currNode")
    case None
    then show ?thesis by (simp add: neighbors_or_empty_def)
  next
    case (Some l)
    then have "(currNode, l) \<in> set adj" by (rule map_of_SomeD)
    then have "set l \<subseteq> (\<Union>(k, l) \<in> set adj. set l)" by blast
    with Some show ?thesis
      unfolding all_targets_def neighbors_or_empty_def by (simp add: image_mono)
  qed
  from 2 have "length (items queue) = Suc (length (items y))"
    by (auto simp: dequeue_def split: list.splits)
  moreover from 2 have "fold (bfs_visit path) (neighbors_or_empty adj currNode) (visited, y) = (visited', queue')"
    by simp
  ultimately show ?case
    using step [OF sub, of path visited y] by simp
qed

definition BreathFirstSearch_run ::
    "jsval adjacency \<Rightarrow> jsval \<Rightarrow> jsval \<Rightarrow> (error + jsval list option) \<times> (jsval \<times> jsval list) Queue" where
  \<comment> \<open>\<open>BreathFirstSearch\<close> with the queue it leaves\<close>
  "BreathFirstSearch_run adjecencyList startNode target =
     (if \<not> ToBoolean startNode then (Inr None, Queue_new [])
      else bfs_loop adjecencyList target {startNode} (Queue_new [(startNode, [startNode])]))"

definition BreathFirstSearch :: "jsval adjacency \<Rightarrow> jsval \<Rightarrow> jsval \<Rightarrow> error + jsval list option" where
  "BreathFirstSearch adjecencyList startNode target =
     fst (BreathFirstSearch_run adjecencyList startNode target)"

section \<open>Invariants and specification predicates\<close>

subsection \<open>The heap order\<close>

text \<open>
  The heap order between index \<open>k\<close> and its parent, for every \<open>k\<close> whose
  parent is at \<open>l\<close> or later; from \<open>l = 0\<close> it is the invariant of the heap.
\<close>

definition heap_from :: "'a CompareFn \<Rightarrow> 'a list \<Rightarrow> nat \<Rightarrow> bool" where
  "heap_from cmp h l \<longleftrightarrow>
     (\<forall>k. 0 < k \<and> k < length h \<and> l \<le> parent k \<longrightarrow> cmp (h ! parent k) (h ! k) \<le> 0)"

definition heap_inv :: "'a CompareFn \<Rightarrow> 'a list \<Rightarrow> bool" where
  "heap_inv cmp h \<longleftrightarrow> heap_from cmp h 0"

definition down_ok :: "'a CompareFn \<Rightarrow> 'a list \<Rightarrow> nat \<Rightarrow> nat \<Rightarrow> bool" where
  \<comment> \<open>the order holds from \<open>l\<close> on except below \<open>i\<close>, whose parent is already
      below the children of \<open>i\<close>\<close>
  "down_ok cmp h l i \<longleftrightarrow>
     (\<forall>k. 0 < k \<and> k < length h \<and> l \<le> parent k \<and> parent k \<noteq> i
          \<longrightarrow> cmp (h ! parent k) (h ! k) \<le> 0) \<and>
     (\<forall>k. 0 < k \<and> k < length h \<and> parent k = i \<and> 0 < i \<and> l \<le> parent i
          \<longrightarrow> cmp (h ! parent i) (h ! k) \<le> 0)"

definition up_ok :: "'a CompareFn \<Rightarrow> 'a list \<Rightarrow> nat \<Rightarrow> bool" where
  \<comment> \<open>the order holds except above \<open>i\<close>, whose parent is already below the
      children of \<open>i\<close>\<close>
  "up_ok cmp h i \<longleftrightarrow>
     (\<forall>k. 0 < k \<and> k < length h \<and> k \<noteq> i \<longrightarrow> cmp (h ! parent k) (h ! k) \<le> 0) \<and>
     (\<forall>k. 0 < k \<and> k < length h \<and> parent k = i \<and> 0 < i
          \<longrightarrow> cmp (h ! parent i) (h ! k) \<le> 0)"

declare heapifyDown.simps [simp del]

declare heapifyUp.simps [simp del]

text \<open>Sequences of operations on a heap.\<close>

datatype 'a heap_op = Insert 'a | PopMin

fun heap_step :: "'a CompareFn \<Rightarrow> 'a list \<Rightarrow> 'a heap_op \<Rightarrow> 'a list" where
  "heap_step cmp h (Insert v) = insert_heap cmp h v"
| "heap_step cmp h PopMin = snd (popMin cmp h)"

fun popped :: "'a CompareFn \<Rightarrow> 'a list \<Rightarrow> 'a heap_op list \<Rightarrow> 'a list" where
  \<comment> \<open>the values that the \<open>popMin\<close> calls of a sequence of operations return,
      in order; a call on the empty heap returns no value\<close>
  "popped cmp h [] = []"
| "popped cmp h (Insert v # ops) = popped cmp (insert_heap cmp h v) ops"
| "popped cmp h (PopMin # ops) =
     (case popMin cmp h of
        (None, h') \<Rightarrow> popped cmp h' ops
      | (Some m, h') \<Rightarrow> m # popped cmp h' ops)"

definition non_decreasing :: "'a CompareFn \<Rightarrow> 'a list \<Rightarrow> bool" where
  "non_decreasing cmp xs = sorted_wrt (\<lambda>a b. cmp a b \<le> 0) xs"

subsection \<open>Paths and the invariant of the breadth-first search\<close>

text \<open>
  Paths of the adjacency list: a non-empty list of nodes in which every node
  is followed by one of its neighbours.
\<close>

definition edge :: "'a adjacency \<Rightarrow> 'a \<Rightarrow> 'a \<Rightarrow> bool" where
  "edge adj u v \<longleftrightarrow> v \<in> node ` set (neighbors_or_empty adj u)"

fun is_path :: "'a adjacency \<Rightarrow> 'a list \<Rightarrow> bool" where
  "is_path adj [] = False"
| "is_path adj [x] = True"
| "is_path adj (x # y # r) = (edge adj x y \<and> is_path adj (y # r))"

definition path_between :: "'a adjacency \<Rightarrow> 'a \<Rightarrow> 'a \<Rightarrow> 'a list \<Rightarrow> bool" where
  "path_between adj s t p \<longleftrightarrow> is_path adj p \<and> hd p = s \<and> last p = t"

fun fresh :: "'a set \<Rightarrow> 'a list \<Rightarrow> 'a list" where
  \<comment> \<open>the nodes of a neighbour list that one round of the search enqueues\<close>
  "fresh vis [] = []"
| "fresh vis (n # ns) = (if n \<in> vis then fresh vis ns else n # fresh (insert n vis) ns)"

declare bfs_loop.simps [simp del]

definition bfs_inv ::
    "'a adjacency \<Rightarrow> 'a \<Rightarrow> 'a \<Rightarrow> ('a \<Rightarrow> nat) \<Rightarrow> 'a set \<Rightarrow> ('a \<times> 'a list) Queue \<Rightarrow> bool" where
  \<comment> \<open>the invariant of the loop; \<open>L v\<close> is the length of the path with which
      \<open>v\<close> was enqueued, and a visited node that has left the queue is closed\<close>
  "bfs_inv adj s t L vis q \<longleftrightarrow>
     q_size q = int (length (items q)) \<and>
     s \<in> vis \<and> L s = 1 \<and>
     (\<forall>(v, p) \<in> set (items q). path_between adj s v p \<and> length p = L v \<and> v \<in> vis) \<and>
     (\<forall>u \<in> vis - fst ` set (items q).
        u \<noteq> t \<and> (\<forall>y. edge adj u y \<longrightarrow> y \<in> vis \<and> L y \<le> L u + 1)) \<and>
     sorted (map (\<lambda>vp. length (snd vp)) (items q)) \<and>
     (\<forall>vp \<in> set (items q). \<forall>vp' \<in> set (items q). length (snd vp') \<le> length (snd vp) + 1) \<and>
     (\<forall>u \<in> vis - fst ` set (items q). \<forall>vp \<in> set (items q). L u \<le> length (snd vp)) \<and>
     set (map fst (enqueued q)) = vis \<and> distinct (map fst (enqueued q))"

definition bfs_post ::
    "'a adjacency \<Rightarrow> 'a \<Rightarrow> 'a \<Rightarrow> (error + 'a list option) \<times> ('a \<times> 'a list) Queue \<Rightarrow> bool" where
  \<comment> \<open>what the search owes: no node was enqueued twice, nothing was raised,
      \<open>null\<close> only when no path exists, and otherwise a path with the fewest
      nodes\<close>
  "bfs_post adj s t r \<longleftrightarrow>
     distinct (map fst (enqueued (snd r))) \<and>
     (case fst r of
        Inl e \<Rightarrow> False
      | Inr None \<Rightarrow> \<not> (\<exists>p. path_between adj s t p)
      | Inr (Some p) \<Rightarrow>
          path_between adj s t p \<and>
          (\<forall>p'. path_between adj s t p' \<longrightarrow> length p \<le> length p'))"

section \<open>Verification\<close>

subsection \<open>Graph and dijkstra\<close>

lemma cityMap_value:
  "cityMap =
     [(''A'', [GraphNode ''B'' 4, GraphNode ''C'' 2]),
      (''B'', [GraphNode ''A'' 4, GraphNode ''C'' 1, GraphNode ''D'' 5]),
      (''C'', [GraphNode ''A'' 2, GraphNode ''B'' 1, GraphNode ''D'' 8, GraphNode ''E'' 10]),
      (''D'', [GraphNode ''B'' 5, GraphNode ''C'' 8, GraphNode ''E'' 2, GraphNode ''Z'' 6]),
      (''E'', [GraphNode ''C'' 10, GraphNode ''D'' 2, GraphNode ''Z'' 3]),
      (''Z'', [GraphNode ''D'' 6, GraphNode ''E'' 3])]"
  by code_simp

lemma cityMap_result:
  "dijkstra cityMap ''A'' ''Z'' = Some (Inr (Some [''A'', ''C'', ''B'', ''D'', ''E'', ''Z'']))"
  by code_simp

lemma cityMap_result_weight:
  "pathWeight cityMap [''A'', ''C'', ''B'', ''D'', ''E'', ''Z''] = Some 13"
  by code_simp

lemma cityDist_edge:
  "list_all (\<lambda>e. cityDist (eto e) \<le> cityDist (efrom e) + eweight e) (getAllEdges cityMap)"
  by code_simp

lemma cityDist_route:
  "route cityMap a z es \<Longrightarrow> cityDist z \<le> cityDist a + routeWeight es"
proof (induction es arbitrary: a)
  case Nil
  then show ?case by (simp add: routeWeight_def)
next
  case (Cons e es)
  from Cons.prems have e: "e \<in> set (getAllEdges cityMap)" and a: "efrom e = a"
    and r: "route cityMap (eto e) z es"
    by simp_all
  from e cityDist_edge have "cityDist (eto e) \<le> cityDist (efrom e) + eweight e"
    by (simp add: list_all_iff)
  moreover from Cons.IH [OF r] have "cityDist z \<le> cityDist (eto e) + routeWeight es" .
  ultimately show ?case
    using a by (simp add: routeWeight_def)
qed

text \<open>
  C1, as stated, fails: on the city map \<open>dijkstra\<close> returns the path
  A, C, B, D, E, Z, and the total edge weight of that path is
  2 + 1 + 5 + 2 + 3 = 13, not 11.
\<close>

theorem dijkstra_cityMap_weight_not_11:
  "dijkstra cityMap ''A'' ''Z'' = Some (Inr (Some [''A'', ''C'', ''B'', ''D'', ''E'', ''Z'']))
   \<and> pathWeight cityMap [''A'', ''C'', ''B'', ''D'', ''E'', ''Z''] \<noteq> Some 11"
proof
  show "dijkstra cityMap ''A'' ''Z'' = Some (Inr (Some [''A'', ''C'', ''B'', ''D'', ''E'', ''Z'']))"
    by code_simp
  have "pathWeight cityMap [''A'', ''C'', ''B'', ''D'', ''E'', ''Z''] = Some 13"
    by code_simp
  then show "pathWeight cityMap [''A'', ''C'', ''B'', ''D'', ''E'', ''Z''] \<noteq> Some 11"
    by simp
qed

text \<open>
  C1, amended: on the city map \<open>dijkstra(graph, "A", "Z")\<close> returns the path
  A, C, B, D, E, Z, whose total edge weight is 13, and no route from A to Z in
  that graph weighs less than 13.
\<close>

theorem dijkstra_cityMap:
  "dijkstra cityMap ''A'' ''Z'' = Some (Inr (Some [''A'', ''C'', ''B'', ''D'', ''E'', ''Z'']))
   \<and> pathWeight cityMap [''A'', ''C'', ''B'', ''D'', ''E'', ''Z''] = Some 13
   \<and> (\<forall>es. route cityMap ''A'' ''Z'' es \<longrightarrow> 13 \<le> routeWeight es)"
proof (intro conjI allI impI)
  show "dijkstra cityMap ''A'' ''Z'' = Some (Inr (Some [''A'', ''C'', ''B'', ''D'', ''E'', ''Z'']))"
    by (rule cityMap_result)
  show "pathWeight cityMap [''A'', ''C'', ''B'', ''D'', ''E'', ''Z''] = Some 13"
    by (rule cityMap_result_weight)
next
  fix es
  assume "route cityMap ''A'' ''Z'' es"
  from cityDist_route [OF this] show "13 \<le> routeWeight es"
    by (simp add: cityDist_def)
qed

theorem dijkstra_cityMap_witness:
  "route cityMap ''A'' ''Z'' [Edge ''A'' ''B'' 4, Edge ''B'' ''D'' 5, Edge ''D'' ''Z'' 6]
   \<and> 13 \<le> routeWeight [Edge ''A'' ''B'' 4, Edge ''B'' ''D'' 5, Edge ''D'' ''Z'' 6]"
proof -
  have r: "route cityMap ''A'' ''Z'' [Edge ''A'' ''B'' 4, Edge ''B'' ''D'' 5, Edge ''D'' ''Z'' 6]"
    by code_simp
  with dijkstra_cityMap show ?thesis
    by blast
qed

lemma edge_of_entry:
  assumes "(n, connections) \<in> set g" and "nb \<in> set connections"
  shows "Edge n (node nb) (weight nb) \<in> set (getAllEdges g)"
  using assms unfolding getAllEdges_def set_concat set_map
  by (intro UN_I [where a = "map (\<lambda>adjNode. Edge n (node adjNode) (weight adjNode)) connections"])
     (auto intro!: image_eqI [where x = "(n, connections)"])

text \<open>
  C2: when the adjacency list holds an entry of negative weight, \<open>dijkstra\<close>
  returns \<open>null\<close>, whatever the two endpoints are, before any node is
  visited.
\<close>

theorem dijkstra_negative_edge:
  assumes "(n, connections) \<in> set g" and "nb \<in> set connections" and "weight nb < 0"
  shows "dijkstra g frm to = Some (Inr None)"
proof -
  from assms(1,2) have "Edge n (node nb) (weight nb) \<in> set (getAllEdges g)"
    by (rule edge_of_entry)
  with assms(3) have "list_ex (\<lambda>edge. eweight edge < 0) (getAllEdges g)"
    unfolding list_ex_iff by (intro bexI [where x = "Edge n (node nb) (weight nb)"]) simp_all
  then show ?thesis
    by (simp add: dijkstra_def)
qed

theorem dijkstra_negative_edge_witness:
  "dijkstra [(''A'', [GraphNode ''B'' (- 1)]), (''B'', [])] ''A'' ''B'' = Some (Inr None)"
  using dijkstra_negative_edge
          [of "''A''" "[GraphNode ''B'' (- 1)]" "[(''A'', [GraphNode ''B'' (- 1)]), (''B'', [])]"
              "GraphNode ''B'' (- 1)" "''A''" "''B''"]
  by simp

lemma map_of_push_to:
  "map_of g k = Some l \<Longrightarrow> map_of (push_to g k x) = (map_of g)(k \<mapsto> l @ [x])"
  by (simp add: push_to_def update_conv')

lemma map_of_addNode:
  "map_of (fst (addNode g v)) = (if has g v then map_of g else (map_of g)(v \<mapsto> []))"
  by (simp add: addNode_def has_def update_conv' Let_def)

lemma has_addNode: "has (fst (addNode g v)) k \<longleftrightarrow> has g k \<or> k = v"
  unfolding has_def [of "fst (addNode g v)"] map_of_addNode
  by (auto simp: has_def)

text \<open>
  C8: after \<open>addEdge(u, v, w)\<close> with the undirected flag true, both endpoints
  are nodes of the graph, \<open>getNeighbors(u)\<close> contains \<open>{node: v, weight: w}\<close>
  and \<open>getNeighbors(v)\<close> contains \<open>{node: u, weight: w}\<close>.
\<close>

theorem addEdge_undirected:
  "has (fst (addEdge g u v w True)) u \<and> has (fst (addEdge g u v w True)) v
   \<and> (\<exists>l. getNeighbors (fst (addEdge g u v w True)) u = Some l \<and> GraphNode v w \<in> set l)
   \<and> (\<exists>l. getNeighbors (fst (addEdge g u v w True)) v = Some l \<and> GraphNode u w \<in> set l)"
proof -
  define g1 where "g1 = fst (addNode g u)"
  define g2 where "g2 = fst (addNode g1 v)"
  have "has g2 u" and h2v: "has g2 v"
    unfolding g2_def g1_def by (simp_all add: has_addNode)
  then obtain lu where lu: "map_of g2 u = Some lu"
    by (auto simp: has_def)
  define g3 where "g3 = push_to g2 u (GraphNode v w)"
  have m3: "map_of g3 = (map_of g2)(u \<mapsto> lu @ [GraphNode v w])"
    unfolding g3_def by (rule map_of_push_to [OF lu])
  from h2v obtain lv where lv: "map_of g3 v = Some lv" and lv_mem: "u = v \<longrightarrow> GraphNode v w \<in> set lv"
    unfolding m3 by (cases "u = v") (auto simp: has_def)
  define g4 where "g4 = push_to g3 v (GraphNode u w)"
  have m4: "map_of g4 = (map_of g3)(v \<mapsto> lv @ [GraphNode u w])"
    unfolding g4_def by (rule map_of_push_to [OF lv])
  have res: "fst (addEdge g u v w True) = g4"
    by (simp add: addEdge_def g4_def g3_def g2_def g1_def Let_def)
  show ?thesis
    unfolding res
    using lv_mem by (auto simp: has_def getNeighbors_def m4 m3)
qed

subsection \<open>MinMaxStack\<close>

lemma total_order_flip: "total_order cmp \<Longrightarrow> (cmp a b < 0) = (0 < cmp b a)"
  unfolding total_order_def by blast

lemma total_order_refl: 
  assumes "total_order cmp" shows "cmp a a = 0"
proof -
  have "(cmp a a < 0) = (0 < cmp a a)" by (rule total_order_flip [OF assms])
  then show ?thesis by arith
qed

lemma total_order_le_cases:
  assumes "total_order cmp" and "\<not> cmp a b < 0" shows "cmp b a \<le> 0"
proof -
  have "(cmp a b < 0) = (0 < cmp b a)" by (rule total_order_flip [OF assms(1)])
  with assms(2) show ?thesis by arith
qed

lemma total_order_gt_le:
  assumes "total_order cmp" and "0 < cmp a b" shows "cmp b a \<le> 0"
proof -
  have "(cmp b a < 0) = (0 < cmp a b)" by (rule total_order_flip [OF assms(1)])
  with assms(2) show ?thesis by arith
qed

lemma total_order_trans: "total_order cmp \<Longrightarrow> cmp a b \<le> 0 \<Longrightarrow> cmp b c \<le> 0 \<Longrightarrow> cmp a c \<le> 0"
  unfolding total_order_def by blast

lemma is_min_single: "total_order cmp \<Longrightarrow> is_min cmp [v] v"
  by (simp add: is_min_def total_order_refl)

lemma is_min_snoc_new:
  assumes t: "total_order cmp" and m: "is_min cmp xs m" and lt: "cmp v m < 0"
  shows "is_min cmp (xs @ [v]) v"
proof -
  have "cmp v x \<le> 0" if "x \<in> set xs" for x
  proof -
    from m that have "cmp m x \<le> 0" by (simp add: is_min_def)
    moreover from lt have "cmp v m \<le> 0" by simp
    ultimately show ?thesis by (rule total_order_trans [OF t, rotated])
  qed
  then show ?thesis by (simp add: is_min_def total_order_refl [OF t])
qed

lemma is_min_snoc_old:
  assumes t: "total_order cmp" and m: "is_min cmp xs m" and lt: "\<not> cmp v m < 0"
  shows "is_min cmp (xs @ [v]) m"
  using m total_order_le_cases [OF t lt] by (simp add: is_min_def)

lemma is_max_single: "total_order cmp \<Longrightarrow> is_max cmp [v] v"
  by (simp add: is_max_def total_order_refl)

lemma is_max_snoc_new:
  assumes t: "total_order cmp" and m: "is_max cmp xs m" and lt: "0 < cmp v m"
  shows "is_max cmp (xs @ [v]) v"
proof -
  have "cmp x v \<le> 0" if "x \<in> set xs" for x
  proof -
    from m that have "cmp x m \<le> 0" by (simp add: is_max_def)
    moreover have "cmp m v \<le> 0" by (rule total_order_gt_le [OF t lt])
    ultimately show ?thesis by (rule total_order_trans [OF t])
  qed
  then show ?thesis by (simp add: is_max_def total_order_refl [OF t])
qed

lemma is_max_snoc_old:
  assumes m: "is_max cmp xs m" and lt: "\<not> 0 < cmp v m"
  shows "is_max cmp (xs @ [v]) m"
  using m lt by (simp add: is_max_def)

lemma array_pop_snd: "snd (array_pop a) = butlast a"
  by (cases a) (simp_all add: array_pop_def)

lemma getMin_values:
  assumes "stack s \<noteq> []" and "minStack s = map Value mins" and "mins \<noteq> []"
  shows "getMin s = Value (last mins)"
  using assms by (cases mins) (simp_all add: getMin_def isEmpty_stack_def top_of_def last_map)

lemma getMax_values:
  assumes "stack s \<noteq> []" and "maxStack s = map Value maxs" and "maxs \<noteq> []"
  shows "getMax s = Value (last maxs)"
  using assms by (cases maxs) (simp_all add: getMax_def isEmpty_stack_def top_of_def last_map)

lemma updateMinStack_values:
  assumes ne: "stack s \<noteq> []" and m: "minStack s = map Value mins"
  shows "updateMinStack cmp s (Value v) =
         s\<lparr>minStack := map Value (mins @ [shadow_min (on_values cmp) mins v])\<rparr>"
proof (cases "mins = []")
  case True
  with m show ?thesis by (simp add: updateMinStack_def shadow_min_def)
next
  case False
  from getMin_values [OF ne m False] False m show ?thesis
    by (simp add: updateMinStack_def shadow_min_def on_values_def)
qed

lemma updateMaxStack_values:
  assumes ne: "stack s \<noteq> []" and m: "maxStack s = map Value maxs"
  shows "updateMaxStack cmp s (Value v) =
         s\<lparr>maxStack := map Value (maxs @ [shadow_max (on_values cmp) maxs v])\<rparr>"
proof (cases "maxs = []")
  case True
  with m show ?thesis by (simp add: updateMaxStack_def shadow_max_def)
next
  case False
  from getMax_values [OF ne m False] False m show ?thesis
    by (simp add: updateMaxStack_def shadow_max_def on_values_def)
qed

lemma shadow_ok_snoc:
  assumes t: "total_order cmp" and ok: "shadow_ok cmp xs mins maxs"
  shows "shadow_ok cmp (xs @ [v])
           (mins @ [shadow_min cmp mins v]) (maxs @ [shadow_max cmp maxs v])"
    (is "shadow_ok cmp _ (mins @ [?m]) (maxs @ [?M])")
proof -
  from ok have lm: "length mins = length xs" and lM: "length maxs = length xs"
    and old: "\<And>i. i < length xs \<Longrightarrow>
                is_min cmp (take (Suc i) xs) (mins ! i) \<and> is_max cmp (take (Suc i) xs) (maxs ! i)"
    by (simp_all add: shadow_ok_def)
  have new_min: "is_min cmp (xs @ [v]) ?m"
  proof (cases "xs = []")
    case True
    with lm show ?thesis by (simp add: is_min_single [OF t] shadow_min_def)
  next
    case False
    with lm have ne: "mins \<noteq> []" by auto
    from False old [of "length xs - 1"] have "is_min cmp xs (mins ! (length xs - 1))" by simp
    with ne lm have m: "is_min cmp xs (last mins)" by (simp add: last_conv_nth)
    show ?thesis
      using ne is_min_snoc_new [OF t m] is_min_snoc_old [OF t m] by (auto simp: shadow_min_def)
  qed
  have new_max: "is_max cmp (xs @ [v]) ?M"
  proof (cases "xs = []")
    case True
    with lM show ?thesis by (simp add: is_max_single [OF t] shadow_max_def)
  next
    case False
    with lM have ne: "maxs \<noteq> []" by auto
    from False old [of "length xs - 1"] have "is_max cmp xs (maxs ! (length xs - 1))" by simp
    with ne lM have m: "is_max cmp xs (last maxs)" by (simp add: last_conv_nth)
    show ?thesis
      using ne is_max_snoc_new [OF t m] is_max_snoc_old [OF m] by (auto simp: shadow_max_def)
  qed
  have "is_min cmp (take (Suc i) (xs @ [v])) ((mins @ [?m]) ! i) \<and>
        is_max cmp (take (Suc i) (xs @ [v])) ((maxs @ [?M]) ! i)"
    if "i < length (xs @ [v])" for i
  proof (cases "i < length xs")
    case True
    with old [OF True] lm lM show ?thesis by (simp add: nth_append)
  next
    case False
    with that have "i = length xs" by simp
    with new_min new_max lm lM show ?thesis by (simp add: nth_append)
  qed
  with lm lM show ?thesis unfolding shadow_ok_def by simp
qed

lemma shadow_ok_butlast:
  assumes ok: "shadow_ok cmp xs mins maxs"
  shows "shadow_ok cmp (butlast xs) (butlast mins) (butlast maxs)"
proof -
  from ok have lm: "length mins = length xs" and lM: "length maxs = length xs"
    and old: "\<And>i. i < length xs \<Longrightarrow>
                is_min cmp (take (Suc i) xs) (mins ! i) \<and> is_max cmp (take (Suc i) xs) (maxs ! i)"
    by (simp_all add: shadow_ok_def)
  have "is_min cmp (take (Suc i) (butlast xs)) (butlast mins ! i) \<and>
        is_max cmp (take (Suc i) (butlast xs)) (butlast maxs ! i)"
    if "i < length (butlast xs)" for i
  proof -
    from that have i: "i < length xs - 1" by simp
    then have "take (Suc i) (butlast xs) = take (Suc i) xs"
      by (simp add: butlast_conv_take min_def)
    moreover from i lm lM have "butlast mins ! i = mins ! i" "butlast maxs ! i = maxs ! i"
      by (simp_all add: nth_butlast)
    moreover from i have "i < length xs" by simp
    ultimately show ?thesis using old [of i] by simp
  qed
  with lm lM show ?thesis unfolding shadow_ok_def by simp
qed

lemma shadow_ok_top:
  assumes ok: "shadow_ok cmp xs mins maxs" and ne: "xs \<noteq> []"
  shows "is_min cmp xs (last mins) \<and> is_max cmp xs (last maxs) \<and> mins \<noteq> [] \<and> maxs \<noteq> []"
proof -
  from ok have lm: "length mins = length xs" and lM: "length maxs = length xs"
    and old: "\<And>i. i < length xs \<Longrightarrow>
                is_min cmp (take (Suc i) xs) (mins ! i) \<and> is_max cmp (take (Suc i) xs) (maxs ! i)"
    by (simp_all add: shadow_ok_def)
  from ne lm lM have nem: "mins \<noteq> []" "maxs \<noteq> []" by auto
  from ne old [of "length xs - 1"] have "is_min cmp xs (mins ! (length xs - 1))"
    "is_max cmp xs (maxs ! (length xs - 1))" by simp_all
  with nem lm lM show ?thesis by (simp add: last_conv_nth)
qed

lemma update_both_values:
  assumes t: "total_order (on_values cmp)"
    and st: "stack s = map Value ys" "ys \<noteq> []"
    and m: "minStack s = map Value mins" "maxStack s = map Value maxs"
    and ok: "shadow_ok (on_values cmp) xs mins maxs"
  shows "\<exists>mins' maxs'.
           stack (updateMaxStack cmp (updateMinStack cmp s (Value v)) (Value v)) = map Value ys \<and>
           minStack (updateMaxStack cmp (updateMinStack cmp s (Value v)) (Value v)) = map Value mins' \<and>
           maxStack (updateMaxStack cmp (updateMinStack cmp s (Value v)) (Value v)) = map Value maxs' \<and>
           shadow_ok (on_values cmp) (xs @ [v]) mins' maxs'"
proof -
  from st have ne: "stack s \<noteq> []" by simp
  define s2 where "s2 = updateMinStack cmp s (Value v)"
  have s2: "s2 = s\<lparr>minStack := map Value (mins @ [shadow_min (on_values cmp) mins v])\<rparr>"
    unfolding s2_def by (rule updateMinStack_values [OF ne m(1)])
  then have ne2: "stack s2 \<noteq> []" and m2: "maxStack s2 = map Value maxs"
    using ne m(2) by simp_all
  define s3 where "s3 = updateMaxStack cmp s2 (Value v)"
  have s3: "s3 = s2\<lparr>maxStack := map Value (maxs @ [shadow_max (on_values cmp) maxs v])\<rparr>"
    unfolding s3_def by (rule updateMaxStack_values [OF ne2 m2])
  have "stack s3 = map Value ys"
    "minStack s3 = map Value (mins @ [shadow_min (on_values cmp) mins v])"
    "maxStack s3 = map Value (maxs @ [shadow_max (on_values cmp) maxs v])"
    using st(1) by (simp_all add: s3 s2)
  with shadow_ok_snoc [OF t ok, of v] show ?thesis
    unfolding s3_def s2_def by blast
qed

lemma push_inv:
  assumes t: "total_order (on_values cmp)" and inv: "mm_inv cmp s xs"
  shows "mm_inv cmp (push cmp s (Value v)) (xs @ [v])"
proof -
  from inv obtain mins maxs where
    st: "stack s = map Value xs" and m: "minStack s = map Value mins" "maxStack s = map Value maxs"
    and ok: "shadow_ok (on_values cmp) xs mins maxs"
    unfolding mm_inv_def by blast
  define s1 where "s1 = s\<lparr>stack := push_stack (stack s) (Value v)\<rparr>"
  have st1: "stack s1 = map Value (xs @ [v])" "xs @ [v] \<noteq> []"
    by (simp_all add: s1_def push_stack_def st)
  have m1: "minStack s1 = map Value mins" "maxStack s1 = map Value maxs"
    by (simp_all add: s1_def m)
  from update_both_values [OF t st1 m1 ok, of v] show ?thesis
    unfolding mm_inv_def push_def s1_def by blast
qed

lemma pop_inv:
  assumes inv: "mm_inv cmp s xs"
  shows "mm_inv cmp (snd (pop s)) (butlast xs)"
proof -
  from inv obtain mins maxs where
    st: "stack s = map Value xs" and m: "minStack s = map Value mins" "maxStack s = map Value maxs"
    and ok: "shadow_ok (on_values cmp) xs mins maxs"
    unfolding mm_inv_def by blast
  show ?thesis
  proof (cases "xs = []")
    case True
    with st have "snd (pop s) = s\<lparr>stack := []\<rparr>"
      by (simp add: pop_def pop_stack_def array_pop_def)
    with True st m ok show ?thesis
      unfolding mm_inv_def by auto
  next
    case False
    then obtain y ys where xs: "xs = y # ys" by (cases xs) auto
    have "array_pop (stack s) = (Value (last xs), map Value (butlast xs))"
      by (simp add: st xs array_pop_def last_map map_butlast)
    then have "snd (pop s) = s\<lparr>stack := map Value (butlast xs),
                                  minStack := map Value (butlast mins),
                                  maxStack := map Value (butlast maxs)\<rparr>"
      by (simp add: pop_def pop_stack_def array_pop_snd m map_butlast)
    with shadow_ok_butlast [OF ok] show ?thesis
      unfolding mm_inv_def by auto
  qed
qed

lemma constructor_fold:
  assumes t: "total_order (on_values cmp)"
  shows "stack s = map Value (pre @ rest) \<Longrightarrow> minStack s = map Value mins \<Longrightarrow>
         maxStack s = map Value maxs \<Longrightarrow> shadow_ok (on_values cmp) pre mins maxs \<Longrightarrow>
         mm_inv cmp (fold (\<lambda>v s. updateMaxStack cmp (updateMinStack cmp s v) v) (map Value rest) s)
           (pre @ rest)"
proof (induction rest arbitrary: s pre mins maxs)
  case Nil
  then show ?case unfolding mm_inv_def by auto
next
  case (Cons v rest)
  have ne: "pre @ v # rest \<noteq> []" by simp
  from update_both_values [OF t Cons.prems(1) ne Cons.prems(2,3,4), of v]
  obtain mins' maxs' where
    a: "stack (updateMaxStack cmp (updateMinStack cmp s (Value v)) (Value v))
          = map Value ((pre @ [v]) @ rest)"
    and b: "minStack (updateMaxStack cmp (updateMinStack cmp s (Value v)) (Value v)) = map Value mins'"
    and c: "maxStack (updateMaxStack cmp (updateMinStack cmp s (Value v)) (Value v)) = map Value maxs'"
    and d: "shadow_ok (on_values cmp) (pre @ [v]) mins' maxs'"
    by auto
  from Cons.IH [OF a b c d] show ?case by simp
qed

lemma constructor_inv:
  assumes t: "total_order (on_values cmp)"
  shows "mm_inv cmp (MinMaxStack_new cmp (map_option (map Value) init))
           (case init of None \<Rightarrow> [] | Some vs \<Rightarrow> vs)"
proof (cases init)
  case None
  then show ?thesis by (simp add: MinMaxStack_new_def mm_inv_def shadow_ok_def)
next
  case (Some vs)
  have "shadow_ok (on_values cmp) [] [] []"
    by (simp add: shadow_ok_def)
  from constructor_fold [OF t _ _ _ this,
         of "\<lparr>stack = map Value vs, minStack = [], maxStack = []\<rparr>" vs]
  show ?thesis
    by (simp add: Some MinMaxStack_new_def)
qed

lemma run_inv:
  assumes t: "total_order (on_values cmp)"
  shows "mm_inv cmp s xs \<Longrightarrow>
         \<exists>ys. mm_inv cmp (foldl (apply_op cmp) s (map (map_stack_op Value) ops)) ys"
proof (induction ops arbitrary: s xs)
  case Nil
  then show ?case by auto
next
  case (Cons op ops)
  have "\<exists>zs. mm_inv cmp (apply_op cmp s (map_stack_op Value op)) zs"
  proof (cases op)
    case (Push v)
    with push_inv [OF t Cons.prems, of v] show ?thesis by auto
  next
    case Pop
    with pop_inv [OF Cons.prems] show ?thesis by auto
  qed
  then obtain zs where "mm_inv cmp (apply_op cmp s (map_stack_op Value op)) zs" ..
  from Cons.IH [OF this] show ?case by simp
qed

text \<open>
  When no element is \<open>null\<close> or \<open>undefined\<close> and the comparator is a total
  order on the elements, the class does what its documentation says: after
  the constructor and any sequence of \<open>push\<close> and \<open>pop\<close> calls the shadow
  arrays are as deep as the primary array, and \<open>getMin()\<close> and \<open>getMax()\<close>
  return \<open>null\<close> on the empty stack and otherwise an element that no element
  is below (above).
\<close>

lemma MinMaxStack_min_max_values:
  assumes t: "total_order (on_values cmp)"
    and s: "s = foldl (apply_op cmp) (MinMaxStack_new cmp (map_option (map Value) init))
                  (map (map_stack_op Value) ops)"
  shows "\<exists>xs. stack s = map Value xs \<and>
              length (minStack s) = length xs \<and> length (maxStack s) = length xs \<and>
              (if xs = [] then getMin s = Null \<and> getMax s = Null
               else \<exists>m M. getMin s = Value m \<and> is_min (on_values cmp) xs m \<and>
                          getMax s = Value M \<and> is_max (on_values cmp) xs M)"
proof -
  from run_inv [OF t constructor_inv [OF t], of init ops] obtain xs mins maxs where
    st: "stack s = map Value xs" and m: "minStack s = map Value mins" "maxStack s = map Value maxs"
    and ok: "shadow_ok (on_values cmp) xs mins maxs"
    unfolding mm_inv_def s by blast
  from ok have len: "length mins = length xs" "length maxs = length xs"
    by (simp_all add: shadow_ok_def)
  have "\<exists>m M. getMin s = Value m \<and> is_min (on_values cmp) xs m \<and>
              getMax s = Value M \<and> is_max (on_values cmp) xs M" if ne: "xs \<noteq> []"
  proof -
    from shadow_ok_top [OF ok ne] have
      top: "is_min (on_values cmp) xs (last mins)" "is_max (on_values cmp) xs (last maxs)"
      "mins \<noteq> []" "maxs \<noteq> []" by simp_all
    from ne st have sne: "stack s \<noteq> []" by simp
    from getMin_values [OF sne m(1) top(3)] getMax_values [OF sne m(2) top(4)] top(1,2)
    show ?thesis by blast
  qed
  moreover have "getMin s = Null \<and> getMax s = Null" if "xs = []"
    using that st by (simp add: getMin_def getMax_def isEmpty_stack_def)
  ultimately have "stack s = map Value xs \<and>
              length (minStack s) = length xs \<and> length (maxStack s) = length xs \<and>
              (if xs = [] then getMin s = Null \<and> getMax s = Null
               else \<exists>m M. getMin s = Value m \<and> is_min (on_values cmp) xs m \<and>
                          getMax s = Value M \<and> is_max (on_values cmp) xs M)"
    using st m len by simp
  then show ?thesis ..
qed

lemma total_order_numeric: "total_order numeric"
  by (auto simp: total_order_def numeric_def)


lemma total_order_nullsFirst: "total_order nullsFirst"
  unfolding total_order_def nullsFirst_def
  by (auto split: nullable.splits)

lemma total_order_on_values_nullsFirst: "total_order (on_values nullsFirst)"
  by (auto simp: total_order_def on_values_def nullsFirst_def)

lemma MinMaxStack_example:
  "getMin (foldl (apply_op nullsFirst) (MinMaxStack_new nullsFirst None)
             [Push (Value 5), Push (Value 3), Push (Value 7), Push (Value 4)]) = Value 3 \<and>
   getMax (foldl (apply_op nullsFirst) (MinMaxStack_new nullsFirst None)
             [Push (Value 5), Push (Value 3), Push (Value 7), Push (Value 4)]) = Value 7 \<and>
   getMin (foldl (apply_op nullsFirst) (MinMaxStack_new nullsFirst None)
             [Push (Value 5), Push (Value 3), Push (Value 7), Push (Value 4), Pop]) = Value 3 \<and>
   getMax (foldl (apply_op nullsFirst) (MinMaxStack_new nullsFirst None)
             [Push (Value 5), Push (Value 3), Push (Value 7), Push (Value 4), Pop]) = Value 7"
  by code_simp

lemma MinMaxStack_min_max_values_example:
  "total_order (on_values nullsFirst) \<and>
   (\<exists>xs. stack (foldl (apply_op nullsFirst) (MinMaxStack_new nullsFirst (Some [Value 2]))
                  [Push (Value 5), Pop, Push (Value 1)]) = map Value xs \<and>
         length (minStack (foldl (apply_op nullsFirst) (MinMaxStack_new nullsFirst (Some [Value 2]))
                  [Push (Value 5), Pop, Push (Value 1)])) = length xs)"
  using MinMaxStack_min_max_values
          [OF total_order_on_values_nullsFirst refl, of "Some [2]" "[Push 5, Pop, Push 1]"]
        total_order_on_values_nullsFirst
  by auto

text \<open>
  C7 fails on the code when an element is \<open>null\<close> (or \<open>undefined\<close>). On a
  \<open>MinMaxStack<number | null>\<close> with the total-order comparator
  \<open>nullsFirst\<close>, \<open>push(null); pop()\<close> empties the primary array but leaves
  both shadow arrays at depth 1, because \<open>pop\<close> tests the popped value
  against \<open>null\<close> instead of testing whether the stack was empty; after a
  further \<open>push(5)\<close> the only element present is 5 but \<open>getMin()\<close> returns
  \<open>null\<close>.
\<close>

theorem MinMaxStack_null_element:
  "stack (foldl (apply_op nullsFirst) (MinMaxStack_new nullsFirst None) [Push Null, Pop]) = [] \<and>
   minStack (foldl (apply_op nullsFirst) (MinMaxStack_new nullsFirst None) [Push Null, Pop])
     = [Null] \<and>
   maxStack (foldl (apply_op nullsFirst) (MinMaxStack_new nullsFirst None) [Push Null, Pop])
     = [Null] \<and>
   stack (foldl (apply_op nullsFirst) (MinMaxStack_new nullsFirst None)
            [Push Null, Pop, Push (Value 5)]) = [Value 5] \<and>
   minStack (foldl (apply_op nullsFirst) (MinMaxStack_new nullsFirst None)
            [Push Null, Pop, Push (Value 5)]) = [Null, Null] \<and>
   maxStack (foldl (apply_op nullsFirst) (MinMaxStack_new nullsFirst None)
            [Push Null, Pop, Push (Value 5)]) = [Null, Value 5] \<and>
   getMin (foldl (apply_op nullsFirst) (MinMaxStack_new nullsFirst None)
            [Push Null, Pop, Push (Value 5)]) = Null"
  by code_simp

subsection \<open>LinkedList\<close>

lemma from_root_example:
  "(case from_root example_cycle 0 of
      Some (Inr (h, l)) \<Rightarrow>
        head l = Some 0 \<and> tail l = Some 3 \<and> list_size l = 4 \<and> chain h (head l) [0, 1, 2, 3]
    | _ \<Rightarrow> False)"
  by code_simp

text \<open>
  C4 fails on the code when the cycle passes through the root: for
  \<open>root = {data: 1, next: n2}\<close>, \<open>n2 = {data: 2, next: root}\<close> the walk of \<open>from\<close>
  meets the entry node (the root) for the first time only after a full turn,
  goes round once more and records size 4, while the list it leaves, root and
  n2, has two nodes.
\<close>

theorem from_root_cycle_through_root:
  "(case from_root two_cycle 0 of
      Some (Inr (h, l)) \<Rightarrow>
        cycle two_cycle 0 = Some (Inr (Some 0)) \<and>
        head l = Some 0 \<and> tail l = Some 1 \<and> list_size l = 4 \<and> chain h (head l) [0, 1]
    | _ \<Rightarrow> False)"
  by code_simp

text \<open>
  C5 fails on the code: \<open>pop()\<close> on the one-element list \<open>new LinkedList(1)\<close>
  returns 1 and sets the size to 0, but leaves \<open>head\<close> and \<open>tail\<close> on the node,
  so one node is still reachable from \<open>head\<close>; and \<open>shift()\<close> on that list
  empties it but leaves \<open>tail\<close> on the removed node. The sibling \<open>delete(1)\<close>
  resets both references (\<open>delete_one_element\<close>).
\<close>

theorem pop_one_element_keeps_node:
  "(case LinkedList_new store0 [1] of
      Inr hl \<Rightarrow>
        (case pop_list hl of
           Some (r, h, l) \<Rightarrow>
             r = Some 1 \<and> list_size l = 0 \<and> head l = Some 0 \<and> tail l = Some 0 \<and>
             chain h (head l) [0]
         | None \<Rightarrow> False) \<and>
        (case shift_list hl of
           (r, h, l) \<Rightarrow>
             r = Some 0 \<and> list_size l = 0 \<and> head l = None \<and> tail l = Some 0 \<and>
             chain h (head l) [])
    | Inl e \<Rightarrow> False)"
  by code_simp

lemma delete_one_element:
  "(case LinkedList_new store0 [1] of
      Inr hl \<Rightarrow>
        (case delete_list hl 1 of
           Some (r, h, l) \<Rightarrow> r \<and> list_size l = 0 \<and> head l = None \<and> tail l = None
         | None \<Rightarrow> False)
    | Inl e \<Rightarrow> False)"
  by code_simp

lemma delete_last_element:
  "(case LinkedList_new store0 [1, 2, 3] of
      Inr hl \<Rightarrow>
        (case delete_list hl 3 of
           Some (r, h, l) \<Rightarrow>
             r \<and> list_size l = 2 \<and> head l = Some 0 \<and> tail l = Some 1 \<and> chain h (head l) [0, 1]
         | None \<Rightarrow> False)
    | Inl e \<Rightarrow> False)"
  by code_simp

lemma pop_three_elements:
  "(case LinkedList_new store0 [1, 2, 3] of
      Inr hl \<Rightarrow>
        (case pop_list hl of
           Some (r, h, l) \<Rightarrow>
             r = Some 3 \<and> list_size l = 2 \<and> head l = Some 0 \<and> tail l = Some 1 \<and>
             chain h (head l) [0, 1]
         | None \<Rightarrow> False)
    | Inl e \<Rightarrow> False)"
  by code_simp

subsection \<open>The searches\<close>

text \<open>
  C10: a falsy start node, such as the number 0 or the empty string, makes
  \<open>DepthFirstSearch\<close> and \<open>BreathFirstSearch\<close> return \<open>null\<close> at once, whatever
  the adjacency list and the target are: also when the start node is a key of
  the adjacency list and is the target.
\<close>

theorem falsy_start_returns_null:
  assumes "\<not> ToBoolean startNode"
  shows "DepthFirstSearch fuel adj startNode target = Some None \<and>
         BreathFirstSearch adj startNode target = Inr None"
  using assms by (simp add: DepthFirstSearch_def BreathFirstSearch_def BreathFirstSearch_run_def)

theorem falsy_start_returns_null_witness:
  "\<not> ToBoolean (JNum 0) \<and> \<not> ToBoolean (JStr []) \<and>
   has [(JNum 0, [GraphNode (JStr []) 1]), (JStr [], [GraphNode (JNum 0) 1])] (JNum 0) \<and>
   has [(JNum 0, [GraphNode (JStr []) 1]), (JStr [], [GraphNode (JNum 0) 1])] (JStr []) \<and>
   DepthFirstSearch 0
     [(JNum 0, [GraphNode (JStr []) 1]), (JStr [], [GraphNode (JNum 0) 1])] (JNum 0) (JNum 0)
     = Some None \<and>
   BreathFirstSearch
     [(JNum 0, [GraphNode (JStr []) 1]), (JStr [], [GraphNode (JNum 0) 1])] (JNum 0) (JNum 0)
     = Inr None \<and>
   DepthFirstSearch 0
     [(JNum 0, [GraphNode (JStr []) 1]), (JStr [], [GraphNode (JNum 0) 1])] (JStr []) (JStr [])
     = Some None \<and>
   BreathFirstSearch
     [(JNum 0, [GraphNode (JStr []) 1]), (JStr [], [GraphNode (JNum 0) 1])] (JStr []) (JStr [])
     = Inr None"
  using falsy_start_returns_null
          [of "JNum 0" 0 "[(JNum 0, [GraphNode (JStr []) 1]), (JStr [], [GraphNode (JNum 0) 1])]"
              "JNum 0"]
        falsy_start_returns_null
          [of "JStr []" 0 "[(JNum 0, [GraphNode (JStr []) 1]), (JStr [], [GraphNode (JNum 0) 1])]"
              "JStr []"]
  by (simp add: has_def)

lemma truthy_start_found:
  "DepthFirstSearch 1 [(JNum 1, [])] (JNum 1) (JNum 1) = Some (Some [JNum 1]) \<and>
   BreathFirstSearch [(JNum 1, [])] (JNum 1) (JNum 1) = Inr (Some [JNum 1])"
  by code_simp

subsection \<open>MinHeap\<close>

lemma parent_less: "0 < k \<Longrightarrow> parent k < k"
  unfolding parent_def by arith

lemma parent_eq_iff: "0 < k \<Longrightarrow> parent k = i \<longleftrightarrow> k = leftChild i \<or> k = rightChild i"
  unfolding parent_def leftChild_def rightChild_def by arith

lemma parent_child: "parent (leftChild i) = i" "parent (rightChild i) = i"
  by (simp_all add: parent_def leftChild_def rightChild_def)

lemma child_greater: "i < leftChild i" "i < rightChild i" "0 < leftChild i" "0 < rightChild i"
  by (simp_all add: leftChild_def rightChild_def)

lemma pickMin_cases:
  "pickMin cmp h i = i \<or>
   (pickMin cmp h i = leftChild i \<and> leftChild i < length h) \<or>
   (pickMin cmp h i = rightChild i \<and> rightChild i < length h)"
  by (simp add: pickMin_def Let_def)

lemma pickMin_least:
  assumes t: "total_order cmp"
  shows "cmp (h ! pickMin cmp h i) (h ! i) \<le> 0"
    and "leftChild i < length h \<Longrightarrow> cmp (h ! pickMin cmp h i) (h ! leftChild i) \<le> 0"
    and "rightChild i < length h \<Longrightarrow> cmp (h ! pickMin cmp h i) (h ! rightChild i) \<le> 0"
proof -
  define c1 where
    "c1 = (if leftChild i < length h \<and> cmp (h ! leftChild i) (h ! i) < 0 then leftChild i else i)"
  define c2 where
    "c2 = (if rightChild i < length h \<and> cmp (h ! rightChild i) (h ! c1) < 0 then rightChild i else c1)"
  have c2: "pickMin cmp h i = c2"
    by (simp add: pickMin_def Let_def c2_def c1_def)
  have r: "cmp x x \<le> 0" for x
    by (simp add: total_order_refl [OF t])
  have c1_i: "cmp (h ! c1) (h ! i) \<le> 0"
    using r by (simp add: c1_def)
  have c1_l: "cmp (h ! c1) (h ! leftChild i) \<le> 0" if "leftChild i < length h"
    using that r total_order_le_cases [OF t, of "h ! leftChild i" "h ! i"] by (simp add: c1_def)
  have c2_c1: "cmp (h ! c2) (h ! c1) \<le> 0"
    using r by (simp add: c2_def)
  have c2_r: "cmp (h ! c2) (h ! rightChild i) \<le> 0" if "rightChild i < length h"
    using that r total_order_le_cases [OF t, of "h ! rightChild i" "h ! c1"] by (simp add: c2_def)
  show "cmp (h ! pickMin cmp h i) (h ! i) \<le> 0"
    unfolding c2 by (rule total_order_trans [OF t c2_c1 c1_i])
  show "cmp (h ! pickMin cmp h i) (h ! leftChild i) \<le> 0" if "leftChild i < length h"
    unfolding c2 by (rule total_order_trans [OF t c2_c1 c1_l [OF that]])
  show "cmp (h ! pickMin cmp h i) (h ! rightChild i) \<le> 0" if "rightChild i < length h"
    unfolding c2 by (rule c2_r [OF that])
qed

lemma length_swap: "length (swap h i j) = length h"
  by (simp add: swap_def)

lemma nth_swap:
  "i < length h \<Longrightarrow> j < length h \<Longrightarrow>
   swap h i j ! k = (if k = j then h ! i else if k = i then h ! j else h ! k)"
  by (simp add: swap_def nth_list_update)

lemma mset_swap_heap: "i < length h \<Longrightarrow> j < length h \<Longrightarrow> mset (swap h i j) = mset h"
  unfolding swap_def by (rule mset_swap)

lemma heapifyDown_stop: "pickMin cmp h i = i \<Longrightarrow> heapifyDown cmp h i = h"
  by (subst heapifyDown.simps) (simp add: Let_def)

lemma heapifyDown_step:
  "pickMin cmp h i \<noteq> i \<Longrightarrow>
   heapifyDown cmp h i = heapifyDown cmp (swap h i (pickMin cmp h i)) (pickMin cmp h i)"
  by (subst heapifyDown.simps) (simp add: Let_def)

lemma pickMin_range:
  assumes "pickMin cmp h i \<noteq> i"
  shows "pickMin cmp h i < length h" and "i < pickMin cmp h i" and "i < length h"
    and "parent (pickMin cmp h i) = i" and "0 < pickMin cmp h i"
  using assms pickMin_cases [of cmp h i] child_greater [of i] parent_child [of i]
  by auto

lemma heapifyDown_mset: "mset (heapifyDown cmp h i) = mset h"
proof (induction cmp h i rule: heapifyDown.induct)
  case (1 cmp h i)
  show ?case
  proof (cases "pickMin cmp h i = i")
    case True
    then show ?thesis by (simp add: heapifyDown_stop)
  next
    case False
    from "1" [OF refl False] pickMin_range [OF False] show ?thesis
      by (simp add: heapifyDown_step [OF False] mset_swap_heap)
  qed
qed

lemma heapifyDown_length: "length (heapifyDown cmp h i) = length h"
  using heapifyDown_mset [of cmp h i] by (metis size_mset)

lemma heapifyDown_heap:
  "total_order cmp \<Longrightarrow> down_ok cmp h l i \<Longrightarrow> heap_from cmp (heapifyDown cmp h i) l"
proof (induction cmp h i rule: heapifyDown.induct)
  case (1 cmp h i)
  note t = "1.prems"(1)
  from "1.prems"(2) have
    d1: "\<And>k. 0 < k \<Longrightarrow> k < length h \<Longrightarrow> l \<le> parent k \<Longrightarrow> parent k \<noteq> i
            \<Longrightarrow> cmp (h ! parent k) (h ! k) \<le> 0" and
    d2: "\<And>k. 0 < k \<Longrightarrow> k < length h \<Longrightarrow> parent k = i \<Longrightarrow> 0 < i \<Longrightarrow> l \<le> parent i
            \<Longrightarrow> cmp (h ! parent i) (h ! k) \<le> 0"
    unfolding down_ok_def by blast+
  define c where "c = pickMin cmp h i"
  have least: "cmp (h ! c) (h ! i) \<le> 0"
    "\<And>k. 0 < k \<Longrightarrow> k < length h \<Longrightarrow> parent k = i \<Longrightarrow> cmp (h ! c) (h ! k) \<le> 0"
    using pickMin_least [OF t, where h = h and i = i] unfolding c_def by (auto simp: parent_eq_iff)
  show ?case
  proof (cases "c = i")
    case True
    have "cmp (h ! parent k) (h ! k) \<le> 0" if "0 < k" "k < length h" "l \<le> parent k" for k
    proof (cases "parent k = i")
      case False
      with that show ?thesis by (rule d1)
    next
      case p: True
      from least(2) [OF that(1,2) p] True p show ?thesis by simp
    qed
    then have "heap_from cmp h l"
      unfolding heap_from_def by blast
    with True show ?thesis
      by (simp add: heapifyDown_stop c_def)
  next
    case False
    then have ne: "pickMin cmp h i \<noteq> i" by (simp add: c_def)
    from pickMin_range [OF ne] have c: "c < length h" "i < c" "i < length h" "parent c = i" "0 < c"
      by (simp_all add: c_def)
    define h' where "h' = swap h i c"
    have len: "length h' = length h" by (simp add: h'_def length_swap)
    have nth: "h' ! k = (if k = c then h ! i else if k = i then h ! c else h ! k)" for k
      unfolding h'_def using c by (simp add: nth_swap)
    have p1: "cmp (h' ! parent k) (h' ! k) \<le> 0"
      if k: "0 < k" "k < length h" "l \<le> parent k" "parent k \<noteq> c" for k
    proof (cases "parent k = i")
      case p: True
      with k(1) have "i < k" using parent_less [of k] by simp
      show ?thesis
      proof (cases "k = c")
        case True
        with p c least(1) show ?thesis by (simp add: nth)
      next
        case False
        with p \<open>i < k\<close> c least(2) [OF k(1,2) p] show ?thesis by (simp add: nth)
      qed
    next
      case np: False
      with c have kc: "k \<noteq> c" by auto
      show ?thesis
      proof (cases "k = i")
        case True
        with k have "0 < i" "l \<le> parent i" by simp_all
        from d2 [OF c(5) c(1) c(4) this] np k(4) kc True c show ?thesis by (simp add: nth)
      next
        case False
        with d1 [OF k(1,2,3) np] np k(4) kc show ?thesis by (simp add: nth)
      qed
    qed
    have p2: "cmp (h' ! parent c) (h' ! k) \<le> 0"
      if k: "0 < k" "k < length h" "parent k = c" "0 < c" "l \<le> parent c" for k
    proof -
      from k(1,3) have "c < k" using parent_less [of k] by simp
      moreover from k(5) c have "l \<le> parent k" by (simp add: k(3))
      moreover from c k(3) have "parent k \<noteq> i" by simp
      ultimately show ?thesis
        using d1 [OF k(1,2)] c k(3) by (simp add: nth)
    qed
    have "down_ok cmp h' l c"
      unfolding down_ok_def len using p1 p2 by blast
    then have dk: "down_ok cmp (swap h i (pickMin cmp h i)) l (pickMin cmp h i)"
      by (simp add: h'_def c_def)
    from "1.IH" [OF refl ne t dk] show ?thesis
      by (simp add: heapifyDown_step [OF ne])
  qed
qed

lemma heapifyUp_stop:
  "\<not> (i \<noteq> 0 \<and> cmp (h ! parent i) (h ! i) > 0) \<Longrightarrow> heapifyUp cmp h i = h"
  by (subst heapifyUp.simps) auto

lemma heapifyUp_step:
  "i \<noteq> 0 \<Longrightarrow> cmp (h ! parent i) (h ! i) > 0 \<Longrightarrow>
   heapifyUp cmp h i = heapifyUp cmp (swap h (parent i) i) (parent i)"
  by (subst heapifyUp.simps) simp

lemma heapifyUp_mset: "i < length h \<Longrightarrow> mset (heapifyUp cmp h i) = mset h"
proof (induction cmp h i rule: heapifyUp.induct)
  case (1 cmp h i)
  show ?case
  proof (cases "i \<noteq> 0 \<and> cmp (h ! parent i) (h ! i) > 0")
    case False
    then show ?thesis by (simp add: heapifyUp_stop)
  next
    case True
    then have p: "parent i < length h" using parent_less [of i] "1.prems" by simp
    then have "parent i < length (swap h (parent i) i)" by (simp add: length_swap)
    from "1.IH" [OF True this] True p "1.prems" show ?thesis
      by (simp add: heapifyUp_step mset_swap_heap)
  qed
qed

lemma heapifyUp_heap:
  "total_order cmp \<Longrightarrow> i < length h \<Longrightarrow> up_ok cmp h i \<Longrightarrow> heap_inv cmp (heapifyUp cmp h i)"
proof (induction cmp h i rule: heapifyUp.induct)
  case (1 cmp h i)
  note t = "1.prems"(1) and i = "1.prems"(2)
  from "1.prems"(3) have
    u1: "\<And>k. 0 < k \<Longrightarrow> k < length h \<Longrightarrow> k \<noteq> i \<Longrightarrow> cmp (h ! parent k) (h ! k) \<le> 0" and
    u2: "\<And>k. 0 < k \<Longrightarrow> k < length h \<Longrightarrow> parent k = i \<Longrightarrow> 0 < i
            \<Longrightarrow> cmp (h ! parent i) (h ! k) \<le> 0"
    unfolding up_ok_def by blast+
  show ?case
  proof (cases "i \<noteq> 0 \<and> cmp (h ! parent i) (h ! i) > 0")
    case False
    have "cmp (h ! parent k) (h ! k) \<le> 0" if "0 < k" "k < length h" for k
    proof (cases "k = i")
      case True
      with that False show ?thesis by auto
    next
      case False
      with that show ?thesis by (rule u1)
    qed
    then have "heap_inv cmp h"
      unfolding heap_inv_def heap_from_def by blast
    with False show ?thesis by (simp add: heapifyUp_stop)
  next
    case True
    define p where "p = parent i"
    from True have i0: "0 < i" and gt: "0 < cmp (h ! p) (h ! i)" by (simp_all add: p_def)
    from i0 have pi: "p < i" unfolding p_def by (rule parent_less)
    with i have pl: "p < length h" by simp
    have ip: "cmp (h ! i) (h ! p) \<le> 0" by (rule total_order_gt_le [OF t gt])
    define h' where "h' = swap h p i"
    have len: "length h' = length h" by (simp add: h'_def length_swap)
    have nth: "h' ! k = (if k = i then h ! p else if k = p then h ! i else h ! k)" for k
      unfolding h'_def using pl i by (simp add: nth_swap)
    have q1: "cmp (h' ! parent k) (h' ! k) \<le> 0" if k: "0 < k" "k < length h" "k \<noteq> p" for k
    proof (cases "k = i")
      case True
      with ip pi show ?thesis by (simp add: nth p_def [symmetric])
    next
      case ki: False
      from k(1) have pk: "parent k < k" by (rule parent_less)
      show ?thesis
      proof (cases "parent k = p")
        case True
        from u1 [OF k(1,2) ki] True have "cmp (h ! p) (h ! k) \<le> 0" by simp
        with ip have "cmp (h ! i) (h ! k) \<le> 0" by (rule total_order_trans [OF t])
        with True ki k(3) pi show ?thesis by (simp add: nth)
      next
        case np: False
        show ?thesis
        proof (cases "parent k = i")
          case True
          from u2 [OF k(1,2) True i0] True ki k(3) show ?thesis by (simp add: nth p_def)
        next
          case False
          with np ki k(3) u1 [OF k(1,2) ki] show ?thesis by (simp add: nth)
        qed
      qed
    qed
    have q2: "cmp (h' ! parent p) (h' ! k) \<le> 0"
      if k: "0 < k" "k < length h" "parent k = p" "0 < p" for k
    proof -
      from k(4) have pp: "parent p < p" by (rule parent_less)
      from k(1,3) have "p < k" using parent_less [of k] by simp
      have a: "cmp (h ! parent p) (h ! p) \<le> 0"
        using u1 [OF k(4) pl] pi by simp
      show ?thesis
      proof (cases "k = i")
        case True
        with a pp pi show ?thesis by (simp add: nth)
      next
        case False
        from u1 [OF k(1,2) False] k(3) have "cmp (h ! p) (h ! k) \<le> 0" by simp
        with a have "cmp (h ! parent p) (h ! k) \<le> 0" by (rule total_order_trans [OF t])
        with False pp pi \<open>p < k\<close> show ?thesis by (simp add: nth)
      qed
    qed
    have "up_ok cmp h' p"
      unfolding up_ok_def len using q1 q2 by blast
    then have uk: "up_ok cmp (swap h (parent i) i) (parent i)"
      by (simp add: h'_def p_def)
    have "parent i < length (swap h (parent i) i)"
      using pl by (simp add: length_swap p_def)
    from "1.IH" [OF True t this uk] True show ?thesis
      by (simp add: heapifyUp_step)
  qed
qed

lemma heap_root_least:
  assumes t: "total_order cmp" and inv: "heap_inv cmp h"
  shows "i < length h \<Longrightarrow> cmp (h ! 0) (h ! i) \<le> 0"
proof (induction i rule: less_induct)
  case (less i)
  show ?case
  proof (cases "i = 0")
    case True
    then show ?thesis by (simp add: total_order_refl [OF t])
  next
    case False
    then have p: "parent i < i" by (simp add: parent_less)
    with less.prems have "parent i < length h" by simp
    from less.IH [OF p this] have "cmp (h ! 0) (h ! parent i) \<le> 0" .
    moreover from inv False less.prems have "cmp (h ! parent i) (h ! i) \<le> 0"
      unfolding heap_inv_def heap_from_def by simp
    ultimately show ?thesis by (rule total_order_trans [OF t])
  qed
qed

lemma insert_heap_mset: "mset (insert_heap cmp h v) = mset h + {#v#}"
  by (simp add: insert_heap_def Let_def heapifyUp_mset)

lemma insert_heap_inv:
  assumes t: "total_order cmp" and inv: "heap_inv cmp h"
  shows "heap_inv cmp (insert_heap cmp h v)"
proof -
  have "cmp ((h @ [v]) ! parent k) ((h @ [v]) ! k) \<le> 0"
    if "0 < k" "k < length (h @ [v])" "k \<noteq> length h" for k
  proof -
    from that have k: "k < length h" by simp
    with that(1) have "parent k < length h" using parent_less [of k] by simp
    with k inv that(1) show ?thesis
      unfolding heap_inv_def heap_from_def by (simp add: nth_append)
  qed
  moreover have "parent k \<noteq> length h" if "0 < k" "k < length (h @ [v])" for k
    using that parent_less [of k] by simp
  ultimately have "up_ok cmp (h @ [v]) (length h)"
    unfolding up_ok_def by blast
  from heapifyUp_heap [OF t _ this] show ?thesis
    by (simp add: insert_heap_def Let_def)
qed

lemma heapifyFrom_mset: "mset (heapifyFrom cmp h n) = mset h"
  by (induction n arbitrary: h) (simp_all add: heapifyDown_mset)

lemma heapifyFrom_heap:
  assumes t: "total_order cmp"
  shows "heap_from cmp h n \<Longrightarrow> heap_inv cmp (heapifyFrom cmp h n)"
proof (induction n arbitrary: h)
  case 0
  then show ?case by (simp add: heap_inv_def)
next
  case (Suc n)
  have "l \<noteq> n" if "0 < n" "n \<le> parent n" for l
    using that parent_less [of n] by simp
  then have "down_ok cmp h n n"
    using Suc.prems parent_less [of n]
    unfolding down_ok_def heap_from_def
    by (metis Suc_leI le_neq_implies_less not_less)
  from heapifyDown_heap [OF t this] have "heap_from cmp (heapifyDown cmp h n) n" .
  from Suc.IH [OF this] show ?case by simp
qed

lemma heap_from_half: "heap_from cmp h (length h div 2)"
proof -
  have "\<not> (length h div 2 \<le> parent k)" if "0 < k" "k < length h" for k
    using that unfolding parent_def by arith
  then show ?thesis unfolding heap_from_def by blast
qed

lemma MinHeap_inv:
  assumes "total_order cmp"
  shows "heap_inv cmp (MinHeap cmp args)"
proof (cases args)
  case None
  then show ?thesis by (simp add: MinHeap_def heap_inv_def heap_from_def)
next
  case (Some a)
  from heapifyFrom_heap [OF assms heap_from_half] Some show ?thesis
    by (simp add: MinHeap_def)
qed

lemma MinHeap_mset: "mset (MinHeap cmp (Some a)) = mset a"
  by (simp add: MinHeap_def heapifyFrom_mset)

lemma popMin_nonempty:
  "h \<noteq> [] \<Longrightarrow>
   popMin cmp h = (Some (h ! 0), heapifyDown cmp (butlast (h[0 := last h])) 0)"
  by (cases h) (simp_all add: popMin_def Let_def last_conv_nth)

lemma mset_drop_root:
  assumes "h \<noteq> []"
  shows "mset (butlast (h[0 := last h])) + {#h ! 0#} = mset h"
proof -
  from assms obtain x t where h: "h = x # t" by (cases h) auto
  show ?thesis
  proof (cases "t = []")
    case True
    with h show ?thesis by simp
  next
    case False
    then have "mset (butlast t) + {#last t#} = mset t"
      by (metis append_butlast_last_id mset.simps(2) mset_append mset_single_iff_right
            add_mset_add_single mset.simps(1) union_mset_add_mset_right add.right_neutral)
    with h False show ?thesis by simp
  qed
qed

lemma popMin_mset:
  assumes "h \<noteq> []"
  shows "mset (snd (popMin cmp h)) + {#h ! 0#} = mset h"
  using mset_drop_root [OF assms]
  by (simp add: popMin_nonempty [OF assms] heapifyDown_mset)

lemma popMin_set: "set (snd (popMin cmp h)) \<subseteq> set h"
proof (cases "h = []")
  case True
  then show ?thesis by (simp add: popMin_def)
next
  case False
  from popMin_mset [OF False, of cmp] have "set_mset (mset (snd (popMin cmp h))) \<subseteq> set_mset (mset h)"
    by (metis mset_subset_eq_add_left set_mset_mono)
  then show ?thesis by simp
qed

lemma popMin_inv:
  assumes t: "total_order cmp" and inv: "heap_inv cmp h"
  shows "heap_inv cmp (snd (popMin cmp h))"
proof (cases "h = []")
  case True
  with inv show ?thesis by (simp add: popMin_def)
next
  case False
  define h2 where "h2 = butlast (h[0 := last h])"
  have len: "length h2 = length h - 1" by (simp add: h2_def)
  have "cmp (h2 ! parent k) (h2 ! k) \<le> 0"
    if k: "0 < k" "k < length h2" "parent k \<noteq> 0" for k
  proof -
    from k(1) have "parent k < k" by (rule parent_less)
    with k len have "h2 ! k = h ! k" "h2 ! parent k = h ! parent k"
      by (simp_all add: h2_def nth_butlast)
    moreover from inv k len have "cmp (h ! parent k) (h ! k) \<le> 0"
      unfolding heap_inv_def heap_from_def by simp
    ultimately show ?thesis by simp
  qed
  then have "down_ok cmp h2 0 0"
    unfolding down_ok_def by blast
  from heapifyDown_heap [OF t this] False show ?thesis
    by (simp add: popMin_nonempty heap_inv_def h2_def)
qed

lemma heap_step_inv:
  "total_order cmp \<Longrightarrow> heap_inv cmp h \<Longrightarrow> heap_inv cmp (heap_step cmp h op)"
  by (cases op) (simp_all add: insert_heap_inv popMin_inv)

lemma run_heap_inv:
  assumes t: "total_order cmp"
  shows "heap_inv cmp h \<Longrightarrow> heap_inv cmp (foldl (heap_step cmp) h ops)"
  by (induction ops arbitrary: h) (simp_all add: heap_step_inv [OF t])

lemma heap_root_min:
  assumes t: "total_order cmp" and inv: "heap_inv cmp h" and x: "x \<in> set h"
  shows "cmp (h ! 0) x \<le> 0"
proof -
  from x obtain i where "i < length h" "h ! i = x" by (auto simp: in_set_conv_nth)
  with heap_root_least [OF t inv, of i] show ?thesis by simp
qed

lemma popped_drain:
  assumes t: "total_order cmp"
  shows "heap_inv cmp h \<Longrightarrow>
         non_decreasing cmp (popped cmp h (replicate k PopMin)) \<and>
         set (popped cmp h (replicate k PopMin)) \<subseteq> set h"
proof (induction k arbitrary: h)
  case 0
  then show ?case by (simp add: non_decreasing_def)
next
  case (Suc k)
  define h' where "h' = snd (popMin cmp h)"
  have inv': "heap_inv cmp h'"
    unfolding h'_def by (rule popMin_inv [OF t Suc.prems])
  from Suc.IH [OF inv'] have
    s: "non_decreasing cmp (popped cmp h' (replicate k PopMin))" and
    sub: "set (popped cmp h' (replicate k PopMin)) \<subseteq> set h'"
    by simp_all
  have sub': "set h' \<subseteq> set h" unfolding h'_def by (rule popMin_set)
  show ?case
  proof (cases "h = []")
    case True
    then have "popMin cmp h = (None, h')" by (simp add: popMin_def h'_def)
    with s sub sub' show ?thesis by simp
  next
    case False
    then have p: "popMin cmp h = (Some (h ! 0), h')"
      by (simp add: popMin_nonempty h'_def)
    have "cmp (h ! 0) x \<le> 0" if "x \<in> set (popped cmp h' (replicate k PopMin))" for x
      using that sub sub' heap_root_min [OF t Suc.prems, of x] by blast
    with s sub sub' False show ?thesis
      by (auto simp: p non_decreasing_def)
  qed
qed

lemma example_heap: "MinHeap numeric (Some [5, 3, 8, 1]) = [1, 3, 8, 5]"
  by code_simp

lemma example_heap_insert:
  "foldl (heap_step numeric) (MinHeap numeric (Some [5, 3, 8, 1])) [Insert 0] = [0, 1, 8, 5, 3]"
  by code_simp

lemma example_usage:
  "foldl (heap_step numeric) (MinHeap numeric (Some [5, 3, 8, 1])) [PopMin, Insert 0, Insert 7]
   = [0, 3, 8, 5, 7]"
  by code_simp

text \<open>
  C3, as stated, fails: the values that the \<open>popMin\<close> calls of a sequence of
  \<open>insert\<close> and \<open>popMin\<close> operations return need not be non-decreasing. In the
  example usage of the source the heap is built from \<open>[5,3,8,1]\<close>, \<open>popMin()\<close>
  returns 1, then 0 and 7 are inserted and the next two \<open>popMin()\<close> calls
  return 0 and 3.
\<close>

theorem popMin_after_insert_decreases:
  "total_order numeric \<and>
   popped numeric (MinHeap numeric (Some [5, 3, 8, 1]))
     [PopMin, Insert 0, Insert 7, PopMin, PopMin] = [1, 0, 3] \<and>
   \<not> non_decreasing numeric [1, 0, 3]"
proof (intro conjI)
  show "total_order numeric" by (rule total_order_numeric)
  show "popped numeric (MinHeap numeric (Some [5, 3, 8, 1]))
          [PopMin, Insert 0, Insert 7, PopMin, PopMin] = [1, 0, 3]"
    by code_simp
  show "\<not> non_decreasing numeric [1, 0, 3]"
    by (simp add: non_decreasing_def numeric_def)
qed

text \<open>
  C3, amended: for a total-order comparator, in every heap reached from the
  constructor (with or without an initial array) by a sequence of \<open>insert\<close>
  and \<open>popMin\<close> operations, the values returned by \<open>popMin\<close> calls that follow
  one another with no \<open>insert\<close> between them are non-decreasing under the
  comparator; after bulk-building from \<open>[5,3,8,1]\<close> with the numeric
  comparator they are 1, 3, 5, 8.
\<close>

theorem popMin_run_non_decreasing:
  "(total_order cmp \<longrightarrow>
      non_decreasing cmp
        (popped cmp (foldl (heap_step cmp) (MinHeap cmp init) ops) (replicate k PopMin))) \<and>
   popped numeric (MinHeap numeric (Some [5, 3, 8, 1])) (replicate 4 PopMin) = [1, 3, 5, 8]"
proof (intro conjI impI)
  assume t: "total_order cmp"
  have "heap_inv cmp (foldl (heap_step cmp) (MinHeap cmp init) ops)"
    by (rule run_heap_inv [OF t MinHeap_inv [OF t]])
  from popped_drain [OF t this] show
    "non_decreasing cmp
       (popped cmp (foldl (heap_step cmp) (MinHeap cmp init) ops) (replicate k PopMin))"
    by simp
next
  show "popped numeric (MinHeap numeric (Some [5, 3, 8, 1])) (replicate 4 PopMin) = [1, 3, 5, 8]"
    by code_simp
qed

theorem popMin_run_non_decreasing_witness:
  "total_order numeric \<and>
   popped numeric
     (foldl (heap_step numeric) (MinHeap numeric (Some [5, 3, 8, 1])) [PopMin, Insert 0, Insert 7])
     (replicate 3 PopMin) = [0, 3, 5] \<and>
   non_decreasing numeric [0, 3, 5]"
proof -
  have e: "popped numeric
     (foldl (heap_step numeric) (MinHeap numeric (Some [5, 3, 8, 1])) [PopMin, Insert 0, Insert 7])
     (replicate 3 PopMin) = [0, 3, 5]"
    by code_simp
  from popMin_run_non_decreasing
         [of numeric "Some [5, 3, 8, 1]" "[PopMin, Insert 0, Insert 7]" 3]
       total_order_numeric
  show ?thesis
    unfolding e by simp
qed

text \<open>
  C9: \<open>popMin()\<close> on a non-empty heap returns the root \<open>#heap[0]\<close>, which for
  a total-order comparator is a minimum of every heap reached from the
  constructor by \<open>insert\<close> and \<open>popMin\<close> operations; on the empty heap it
  returns \<open>undefined\<close> and leaves the heap empty. No statement of \<open>popMin\<close>
  raises.
\<close>

theorem popMin_root:
  "(h \<noteq> [] \<longrightarrow> fst (popMin cmp h) = Some (h ! 0)) \<and>
   (total_order cmp \<longrightarrow>
      (\<forall>x \<in> set (foldl (heap_step cmp) (MinHeap cmp init) ops).
          cmp (foldl (heap_step cmp) (MinHeap cmp init) ops ! 0) x \<le> 0)) \<and>
   popMin cmp [] = (None, [])"
proof (intro conjI impI ballI)
  assume "h \<noteq> []"
  then show "fst (popMin cmp h) = Some (h ! 0)"
    by (simp add: popMin_nonempty)
next
  fix x
  assume t: "total_order cmp"
    and x: "x \<in> set (foldl (heap_step cmp) (MinHeap cmp init) ops)"
  have "heap_inv cmp (foldl (heap_step cmp) (MinHeap cmp init) ops)"
    by (rule run_heap_inv [OF t MinHeap_inv [OF t]])
  from heap_root_min [OF t this x]
  show "cmp (foldl (heap_step cmp) (MinHeap cmp init) ops ! 0) x \<le> 0" .
next
  show "popMin cmp [] = (None, [])"
    by (simp add: popMin_def)
qed

theorem popMin_root_witness:
  "fst (popMin numeric [1, 3, 8, 5]) = Some 1 \<and>
   total_order numeric \<and>
   foldl (heap_step numeric) (MinHeap numeric (Some [5, 3, 8, 1])) [Insert 0] = [0, 1, 8, 5, 3] \<and>
   numeric 0 8 \<le> 0 \<and>
   popMin numeric [] = (None, [])"
  using popMin_root [of "[1, 3, 8, 5]" numeric "Some [5, 3, 8, 1]" "[Insert 0]"]
        total_order_numeric
  unfolding example_heap_insert
  by simp

subsection \<open>BreathFirstSearch\<close>

lemma fresh_set: "set (fresh vis ns) = set ns - vis"
  by (induction ns arbitrary: vis) auto

lemma fresh_distinct: "distinct (fresh vis ns)"
  by (induction ns arbitrary: vis) (auto simp: fresh_set)

lemma fold_bfs_visit:
  "fold (bfs_visit path) nbs (vis, q) =
     (vis \<union> set (fresh vis (map node nbs)),
      q\<lparr>items := items q @ map (\<lambda>n. (n, path @ [n])) (fresh vis (map node nbs)),
        q_size := q_size q + int (length (fresh vis (map node nbs))),
        enqueued := enqueued q @ map (\<lambda>n. (n, path @ [n])) (fresh vis (map node nbs))\<rparr>)"
proof (induction nbs arbitrary: vis q)
  case Nil
  show ?case by simp
next
  case (Cons nb nbs)
  show ?case
  proof (cases "node nb \<in> vis")
    case True
    then have "bfs_visit path nb (vis, q) = (vis, q)"
      by (simp add: bfs_visit_def)
    with True Cons [of vis q] show ?thesis by simp
  next
    case False
    then have "bfs_visit path nb (vis, q) =
                 (insert (node nb) vis, enqueue q (node nb, path @ [node nb]))"
      by (simp add: bfs_visit_def)
    with False Cons [of "insert (node nb) vis" "enqueue q (node nb, path @ [node nb])"]
    show ?thesis by (simp add: enqueue_def)
  qed
qed

lemma is_path_snoc:
  "is_path adj (xs @ [y]) \<longleftrightarrow> xs = [] \<or> (is_path adj xs \<and> edge adj (last xs) y)"
  by (induction adj xs rule: is_path.induct) auto

lemma path_between_snoc:
  assumes "path_between adj s v p" and "edge adj v y"
  shows "path_between adj s y (p @ [y])"
proof -
  from assms(1) have "p \<noteq> []" by (auto simp: path_between_def)
  with assms show ?thesis
    by (simp add: path_between_def is_path_snoc)
qed

lemma bfs_invD:
  assumes "bfs_inv adj s t L vis q"
  shows "q_size q = int (length (items q))"
    and "s \<in> vis"
    and "L s = 1"
    and "\<forall>(v, p) \<in> set (items q). path_between adj s v p \<and> length p = L v \<and> v \<in> vis"
    and "\<forall>u \<in> vis - fst ` set (items q).
           u \<noteq> t \<and> (\<forall>y. edge adj u y \<longrightarrow> y \<in> vis \<and> L y \<le> L u + 1)"
    and "sorted (map (\<lambda>vp. length (snd vp)) (items q))"
    and "\<forall>vp \<in> set (items q). \<forall>vp' \<in> set (items q). length (snd vp') \<le> length (snd vp) + 1"
    and "\<forall>u \<in> vis - fst ` set (items q). \<forall>vp \<in> set (items q). L u \<le> length (snd vp)"
    and "set (map fst (enqueued q)) = vis"
    and "distinct (map fst (enqueued q))"
  by (insert assms [unfolded bfs_inv_def]) (elim conjE, assumption)+

lemma bfs_frontier:
  assumes inv: "bfs_inv adj s t L vis q"
  shows "is_path adj p' \<Longrightarrow> hd p' = s \<Longrightarrow>
         (last p' \<in> vis - fst ` set (items q) \<and> L (last p') \<le> length p') \<or>
         (\<exists>vp \<in> set (items q). length (snd vp) \<le> length p')"
proof (induction p' rule: rev_induct)
  case Nil
  then show ?case by simp
next
  case (snoc y xs)
  note s = bfs_invD(2,3) [OF inv]
  have it: "length p = L v" if "(v, p) \<in> set (items q)" for v p
    using bfs_invD(4) [OF inv] that by blast
  have cl: "y \<in> vis \<and> L y \<le> L u + 1" if "u \<in> vis - fst ` set (items q)" "edge adj u y" for u y
    using bfs_invD(5) [OF inv] that by blast
  have node_case:
    "(z \<in> vis - fst ` set (items q) \<and> L z \<le> n) \<or> (\<exists>vp \<in> set (items q). length (snd vp) \<le> n)"
    if "z \<in> vis" "L z \<le> n" for z n
  proof (cases "z \<in> fst ` set (items q)")
    case True
    then obtain p where zp: "(z, p) \<in> set (items q)" by force
    with it that have "length (snd (z, p)) \<le> n" by simp
    with zp show ?thesis by blast
  next
    case False
    with that show ?thesis by simp
  qed
  show ?case
  proof (cases "xs = []")
    case True
    with snoc.prems have "y = s" by simp
    with node_case [of s 1] s True show ?thesis by simp
  next
    case False
    with snoc.prems have px: "is_path adj xs" "edge adj (last xs) y" "hd xs = s"
      by (simp_all add: is_path_snoc)
    from snoc.IH [OF px(1) px(3)] show ?thesis
    proof
      assume a: "last xs \<in> vis - fst ` set (items q) \<and> L (last xs) \<le> length xs"
      with cl [OF _ px(2)] have "y \<in> vis" "L y \<le> length (xs @ [y])" by auto
      from node_case [OF this] show ?thesis by simp
    next
      assume "\<exists>vp \<in> set (items q). length (snd vp) \<le> length xs"
      then obtain vp where "vp \<in> set (items q)" "length (snd vp) \<le> length xs" by blast
      then have "\<exists>vp \<in> set (items q). length (snd vp) \<le> length (xs @ [y])"
        by (intro bexI [where x = vp]) simp_all
      then show ?thesis by (rule disjI2)
    qed
  qed
qed

lemma bfs_inv_step:
  assumes inv: "bfs_inv adj s t L vis q"
    and items: "items q = (v1, p1) # rest"
    and nt: "v1 \<noteq> t"
    and new: "new = fresh vis (map node (neighbors_or_empty adj v1))"
    and q': "items q' = rest @ map (\<lambda>n. (n, p1 @ [n])) new"
            "q_size q' = q_size q - 1 + int (length new)"
            "enqueued q' = enqueued q @ map (\<lambda>n. (n, p1 @ [n])) new"
  shows "bfs_inv adj s t (\<lambda>x. if x \<in> set new then length p1 + 1 else L x) (vis \<union> set new) q'"
proof -
  define L' where "L' = (\<lambda>x. if x \<in> set new then length p1 + 1 else L x)"
  note I1 = bfs_invD(1) [OF inv] and I2 = bfs_invD(2,3) [OF inv] and I5 = bfs_invD(6) [OF inv]
    and I8 = bfs_invD(9,10) [OF inv]
  have I3: "path_between adj s v p \<and> length p = L v \<and> v \<in> vis"
    if "(v, p) \<in> set (items q)" for v p
    using bfs_invD(4) [OF inv] that by blast
  have I4: "u \<noteq> t \<and> (\<forall>y. edge adj u y \<longrightarrow> y \<in> vis \<and> L y \<le> L u + 1)"
    if "u \<in> vis" "u \<notin> fst ` set (items q)" for u
    using bfs_invD(5) [OF inv] that by blast
  have I6: "length (snd vp') \<le> length (snd vp) + 1"
    if "vp \<in> set (items q)" "vp' \<in> set (items q)" for vp vp'
    using bfs_invD(7) [OF inv] that by blast
  have I7: "L u \<le> length (snd vp)"
    if "u \<in> vis" "u \<notin> fst ` set (items q)" "vp \<in> set (items q)" for u vp
    using bfs_invD(8) [OF inv] that by blast
  have N: "set new = {y. edge adj v1 y} - vis"
    by (auto simp: new fresh_set edge_def)
  have dnew: "distinct new" by (simp add: new fresh_distinct)
  have head: "(v1, p1) \<in> set (items q)" by (simp add: items)
  from I3 [OF head] have h1: "path_between adj s v1 p1" "length p1 = L v1" "v1 \<in> vis"
    by simp_all
  have rest_in: "vp \<in> set (items q)" if "vp \<in> set rest" for vp
    using that by (simp add: items)
  have rest_lo: "length p1 \<le> length (snd vp)" if "vp \<in> set rest" for vp
    using I5 that by (auto simp: items)
  have rest_hi: "length (snd vp) \<le> length p1 + 1" if "vp \<in> set rest" for vp
    using I6 [OF head rest_in [OF that]] by simp
  have L_old: "L' x = L x" if "x \<in> vis" for x
    using that by (simp add: L'_def N)
  have L_new: "L' x = length p1 + 1" if "x \<in> set new" for x
    using that by (simp add: L'_def)
  have fst_items': "fst ` set (items q') = fst ` set rest \<union> set new"
    by (auto simp: q' image_Un image_image)
  have closed_cases: "u \<in> vis \<and> u \<notin> set new \<and> (u = v1 \<or> u \<notin> fst ` set (items q))"
    if "u \<in> (vis \<union> set new) - fst ` set (items q')" for u
    using that by (auto simp: fst_items' items)
  have c1: "q_size q' = int (length (items q'))"
    by (simp add: q' I1 items)
  have c2: "s \<in> vis \<union> set new" "L' s = 1"
    using I2 by (simp_all add: L_old)
  have c3: "path_between adj s v p \<and> length p = L' v \<and> v \<in> vis \<union> set new"
    if "(v, p) \<in> set (items q')" for v p
  proof -
    from that have "(v, p) \<in> set rest \<or> (v \<in> set new \<and> p = p1 @ [v])"
      by (auto simp: q')
    then show ?thesis
    proof
      assume "(v, p) \<in> set rest"
      from I3 [OF rest_in [OF this]] show ?thesis by (simp add: L_old)
    next
      assume a: "v \<in> set new \<and> p = p1 @ [v]"
      then have "edge adj v1 v" by (simp add: N)
      from path_between_snoc [OF h1(1) this] a show ?thesis by (simp add: L_new)
    qed
  qed
  have c4: "u \<noteq> t \<and> (\<forall>y. edge adj u y \<longrightarrow> y \<in> vis \<union> set new \<and> L' y \<le> L' u + 1)"
    if u: "u \<in> (vis \<union> set new) - fst ` set (items q')" for u
  proof -
    from closed_cases [OF u] have uv: "u \<in> vis" and
      uc: "u = v1 \<or> u \<notin> fst ` set (items q)" by simp_all
    from uc show ?thesis
    proof
      assume "u \<notin> fst ` set (items q)"
      from I4 [OF uv this] uv show ?thesis by (auto simp: L_old)
    next
      assume u1: "u = v1"
      have "y \<in> vis \<union> set new \<and> L' y \<le> L' v1 + 1" if e: "edge adj v1 y" for y
      proof (cases "y \<in> set new")
        case True
        then show ?thesis using h1 by (simp add: L_new L_old)
      next
        case False
        with e have yv: "y \<in> vis" by (simp add: N)
        have "L y \<le> length p1 + 1"
        proof (cases "y \<in> fst ` set (items q)")
          case True
          then obtain p where yp: "(y, p) \<in> set (items q)" by force
          from I6 [OF head yp] I3 [OF yp] show ?thesis by simp
        next
          case False
          from I7 [OF yv False head] show ?thesis by simp
        qed
        with yv h1 show ?thesis by (simp add: L_old)
      qed
      with nt u1 show ?thesis by simp
    qed
  qed
  have c5: "sorted (map (\<lambda>vp. length (snd vp)) (items q'))"
  proof -
    from I5 have "sorted (map (\<lambda>vp. length (snd vp)) rest)" by (simp add: items)
    moreover have "sorted (map (\<lambda>vp. length (snd vp)) (map (\<lambda>n. (n, p1 @ [n])) new))"
      by (simp add: comp_def map_replicate_const)
    ultimately show ?thesis
      using rest_hi by (auto simp: q' sorted_append)
  qed
  have bounds: "length p1 \<le> length (snd vp) \<and> length (snd vp) \<le> length p1 + 1"
    if "vp \<in> set (items q')" for vp
  proof -
    from that have "vp \<in> set rest \<or> (\<exists>n. vp = (n, p1 @ [n]))"
      by (auto simp: q')
    then show ?thesis
    proof
      assume "vp \<in> set rest"
      with rest_lo [of vp] rest_hi [of vp] show ?thesis by simp
    next
      assume "\<exists>n. vp = (n, p1 @ [n])"
      then show ?thesis by auto
    qed
  qed
  have c6: "length (snd vp') \<le> length (snd vp) + 1"
    if "vp \<in> set (items q')" "vp' \<in> set (items q')" for vp vp'
    using bounds [OF that(1)] bounds [OF that(2)] by simp
  have c7: "L' u \<le> length (snd vp)"
    if u: "u \<in> (vis \<union> set new) - fst ` set (items q')" and vp: "vp \<in> set (items q')" for u vp
  proof -
    from closed_cases [OF u] have uv: "u \<in> vis" and
      uc: "u = v1 \<or> u \<notin> fst ` set (items q)" by simp_all
    have "L u \<le> length p1"
      using uc
    proof
      assume "u = v1"
      with h1 show ?thesis by simp
    next
      assume "u \<notin> fst ` set (items q)"
      from I7 [OF uv this head] show ?thesis by simp
    qed
    with bounds [OF vp] uv show ?thesis by (simp add: L_old)
  qed
  have c8: "set (map fst (enqueued q')) = vis \<union> set new" "distinct (map fst (enqueued q'))"
    using I8 dnew N by (auto simp: q' comp_def)
  have g3: "\<forall>(v, p) \<in> set (items q').
              path_between adj s v p \<and> length p = L' v \<and> v \<in> vis \<union> set new"
    using c3 by blast
  have g4: "\<forall>u \<in> vis \<union> set new - fst ` set (items q').
              u \<noteq> t \<and> (\<forall>y. edge adj u y \<longrightarrow> y \<in> vis \<union> set new \<and> L' y \<le> L' u + 1)"
    using c4 by blast
  have g6: "\<forall>vp \<in> set (items q'). \<forall>vp' \<in> set (items q').
              length (snd vp') \<le> length (snd vp) + 1"
    using c6 by blast
  have g7: "\<forall>u \<in> vis \<union> set new - fst ` set (items q').
              \<forall>vp \<in> set (items q'). L' u \<le> length (snd vp)"
    using c7 by blast
  show ?thesis
    unfolding bfs_inv_def L'_def [symmetric]
    using c1 c2 g3 g4 c5 g6 g7 c8 by (intro conjI)
qed

lemma bfs_loop_empty:
  "items q = [] \<Longrightarrow> q_size q = 0 \<Longrightarrow> bfs_loop adj t vis q = (Inr None, q)"
  by (subst bfs_loop.simps) simp

lemma bfs_loop_found:
  "items q = (v, p) # rest \<Longrightarrow> strict_eq v t \<Longrightarrow> 0 < q_size q \<Longrightarrow>
   bfs_loop adj t vis q = (Inr (Some p), q\<lparr>items := rest, q_size := q_size q - 1\<rparr>)"
  by (subst bfs_loop.simps) (simp add: dequeue_def)

lemma bfs_loop_next:
  "items q = (v, p) # rest \<Longrightarrow> \<not> strict_eq v t \<Longrightarrow> 0 < q_size q \<Longrightarrow>
   bfs_loop adj t vis q =
     (case fold (bfs_visit p) (neighbors_or_empty adj v)
             (vis, q\<lparr>items := rest, q_size := q_size q - 1\<rparr>) of
        (vis', q') \<Rightarrow> bfs_loop adj t vis' q')"
  by (subst bfs_loop.simps) (simp add: dequeue_def)

lemma bfs_no_path:
  assumes inv: "bfs_inv adj s t L vis q" and e: "items q = []"
  shows "\<not> (\<exists>p. path_between adj s t p)"
proof
  assume "\<exists>p. path_between adj s t p"
  then obtain p where p: "is_path adj p" "hd p = s" "last p = t"
    by (auto simp: path_between_def)
  from bfs_frontier [OF inv p(1,2)] e p(3) have "t \<in> vis - fst ` set (items q)"
    by simp
  with bfs_invD(5) [OF inv] show False by blast
qed

lemma bfs_shortest:
  assumes inv: "bfs_inv adj s t L vis q" and h: "items q = (t, p) # rest"
    and p': "path_between adj s t p'"
  shows "length p \<le> length p'"
proof -
  from p' have p: "is_path adj p'" "hd p' = s" "last p' = t"
    by (auto simp: path_between_def)
  have "t \<in> fst ` set (items q)" by (simp add: h)
  with bfs_frontier [OF inv p(1,2)] p(3)
  obtain vp where vp: "vp \<in> set (items q)" "length (snd vp) \<le> length p'"
    by auto
  from bfs_invD(6) [OF inv] vp(1) have "length p \<le> length (snd vp)"
    by (auto simp: h)
  with vp(2) show ?thesis by simp
qed

lemma bfs_loop_correct:
  "t \<noteq> JNaN \<Longrightarrow> bfs_inv adj s t L vis q \<Longrightarrow> bfs_post adj s t (bfs_loop adj t vis q)"
proof (induction adj t vis q arbitrary: L rule: bfs_loop.induct)
  case (1 adj t vis q)
  note tn = "1.prems"(1) and inv = "1.prems"(2)
  note sz = bfs_invD(1) [OF inv]
  show ?case
  proof (cases "items q")
    case Nil
    with sz have "bfs_loop adj t vis q = (Inr None, q)"
      by (simp add: bfs_loop_empty)
    with bfs_no_path [OF inv Nil] bfs_invD(10) [OF inv] show ?thesis
      by (simp add: bfs_post_def)
  next
    case (Cons vp rest)
    obtain v1 p1 where vp: "vp = (v1, p1)" by (cases vp)
    with Cons have it: "items q = (v1, p1) # rest" by simp
    with sz have pos: "0 < q_size q" by simp
    define q1 where "q1 = q\<lparr>items := rest, q_size := q_size q - 1\<rparr>"
    show ?thesis
    proof (cases "v1 = t")
      case True
      with tn have "strict_eq v1 t" by (simp add: strict_eq_def)
      with it pos have r: "bfs_loop adj t vis q = (Inr (Some p1), q1)"
        by (simp add: bfs_loop_found q1_def)
      from bfs_invD(4) [OF inv] it True have pb: "path_between adj s t p1" by auto
      have "length p1 \<le> length p'" if "path_between adj s t p'" for p'
        using bfs_shortest [OF inv _ that] it True by simp
      with pb bfs_invD(10) [OF inv] show ?thesis
        by (simp add: r bfs_post_def q1_def)
    next
      case False
      then have ns: "\<not> strict_eq v1 t" by (simp add: strict_eq_def)
      define new where "new = fresh vis (map node (neighbors_or_empty adj v1))"
      define vis' where "vis' = vis \<union> set new"
      define q' where "q' = q1\<lparr>items := items q1 @ map (\<lambda>n. (n, p1 @ [n])) new,
                               q_size := q_size q1 + int (length new),
                               enqueued := enqueued q1 @ map (\<lambda>n. (n, p1 @ [n])) new\<rparr>"
      have f: "fold (bfs_visit p1) (neighbors_or_empty adj v1) (vis, q1) = (vis', q')"
        by (simp add: fold_bfs_visit vis'_def q'_def new_def)
      from it ns pos have r: "bfs_loop adj t vis q = bfs_loop adj t vis' q'"
        by (simp add: bfs_loop_next q1_def [symmetric] f)
      have d: "dequeue q = (Some (v1, p1), q1)"
        by (simp add: dequeue_def it q1_def)
      have inv': "bfs_inv adj s t (\<lambda>x. if x \<in> set new then length p1 + 1 else L x) vis' q'"
        unfolding vis'_def
        by (rule bfs_inv_step [OF inv it False new_def]) (simp_all add: q'_def q1_def)
      from "1.IH" [OF pos d [symmetric] refl refl ns f [symmetric] tn inv'] show ?thesis
        by (simp add: r)
    qed
  qed
qed

lemma bfs_inv_init: "bfs_inv adj s t (\<lambda>x. 1) {s} (Queue_new [(s, [s])])"
  by (simp add: bfs_inv_def Queue_new_def enqueue_def path_between_def)

text \<open>
  For a truthy start node and a target other than \<open>NaN\<close> the search does what
  its documentation says: no node is enqueued twice, nothing is raised, and
  the result is a path from start to target with the fewest nodes, or \<open>null\<close>
  when no path exists.
\<close>

lemma BreathFirstSearch_shortest:
  assumes "ToBoolean startNode" and "target \<noteq> JNaN"
  shows "distinct (map fst (enqueued (snd (BreathFirstSearch_run adj startNode target)))) \<and>
         (case BreathFirstSearch adj startNode target of
            Inl e \<Rightarrow> False
          | Inr None \<Rightarrow> \<not> (\<exists>p. path_between adj startNode target p)
          | Inr (Some p) \<Rightarrow>
              path_between adj startNode target p \<and>
              (\<forall>p'. path_between adj startNode target p' \<longrightarrow> length p \<le> length p'))"
proof -
  have "bfs_post adj startNode target
          (bfs_loop adj target {startNode} (Queue_new [(startNode, [startNode])]))"
    by (rule bfs_loop_correct [OF assms(2) bfs_inv_init])
  with assms(1) show ?thesis
    by (simp add: BreathFirstSearch_def BreathFirstSearch_run_def bfs_post_def)
qed

lemma BreathFirstSearch_shortest_example:
  "ToBoolean (JNum 1) \<and> JNum 4 \<noteq> JNaN \<and>
   BreathFirstSearch
     [(JNum 1, [GraphNode (JNum 2) 1, GraphNode (JNum 3) 1]),
      (JNum 2, [GraphNode (JNum 4) 1]), (JNum 3, [GraphNode (JNum 4) 1])]
     (JNum 1) (JNum 4) = Inr (Some [JNum 1, JNum 2, JNum 4]) \<and>
   path_between
     [(JNum 1, [GraphNode (JNum 2) 1, GraphNode (JNum 3) 1]),
      (JNum 2, [GraphNode (JNum 4) 1]), (JNum 3, [GraphNode (JNum 4) 1])]
     (JNum 1) (JNum 4) [JNum 1, JNum 2, JNum 4] \<and>
   length [JNum 1, JNum 2, JNum 4] \<le> length [JNum 1, JNum 3, JNum 4] \<and>
   distinct (map fst (enqueued (snd (BreathFirstSearch_run
     [(JNum 1, [GraphNode (JNum 2) 1, GraphNode (JNum 3) 1]),
      (JNum 2, [GraphNode (JNum 4) 1]), (JNum 3, [GraphNode (JNum 4) 1])]
     (JNum 1) (JNum 4)))))"
proof -
  have e: "BreathFirstSearch
     [(JNum 1, [GraphNode (JNum 2) 1, GraphNode (JNum 3) 1]),
      (JNum 2, [GraphNode (JNum 4) 1]), (JNum 3, [GraphNode (JNum 4) 1])]
     (JNum 1) (JNum 4) = Inr (Some [JNum 1, JNum 2, JNum 4])"
    by code_simp
  from BreathFirstSearch_shortest
         [of "JNum 1" "JNum 4"
             "[(JNum 1, [GraphNode (JNum 2) 1, GraphNode (JNum 3) 1]),
               (JNum 2, [GraphNode (JNum 4) 1]), (JNum 3, [GraphNode (JNum 4) 1])]"]
  show ?thesis
    unfolding e by simp
qed

lemma BreathFirstSearch_example_log:
  "map fst (enqueued (snd (BreathFirstSearch_run
     [(JNum 1, [GraphNode (JNum 2) 1, GraphNode (JNum 3) 1]),
      (JNum 2, [GraphNode (JNum 4) 1, GraphNode (JNum 1) 1]),
      (JNum 3, [GraphNode (JNum 4) 1])]
     (JNum 1) (JNum 9)))) = [JNum 1, JNum 2, JNum 3, JNum 4]"
  by code_simp

lemma zero_is_an_ordinary_target:
  "BreathFirstSearch [(JNum 5, [GraphNode (JNum 0) 1]), (JNum 0, [GraphNode (JNum 5) 1])]
     (JNum 5) (JNum 0) = Inr (Some [JNum 5, JNum 0])"
  by code_simp

text \<open>
  C6 fails on the code. In the graph with the edge 0 - 5 the path 0, 5
  exists, but \<open>BreathFirstSearch\<close> from the start node 0 returns \<open>null\<close>: the
  start node is tested for truthiness, while the same node is found as a
  target (\<open>zero_is_an_ordinary_target\<close>). And in the graph with the edge
  1 - \<open>NaN\<close> the path 1, \<open>NaN\<close> exists, but the search for the target \<open>NaN\<close>
  returns \<open>null\<close>: \<open>currNode === target\<close> is never true for \<open>NaN\<close>.
\<close>

theorem BreathFirstSearch_misses_path:
  "BreathFirstSearch [(JNum 0, [GraphNode (JNum 5) 1]), (JNum 5, [GraphNode (JNum 0) 1])]
     (JNum 0) (JNum 5) = Inr None \<and>
   path_between [(JNum 0, [GraphNode (JNum 5) 1]), (JNum 5, [GraphNode (JNum 0) 1])]
     (JNum 0) (JNum 5) [JNum 0, JNum 5] \<and>
   BreathFirstSearch [(JNum 1, [GraphNode JNaN 1]), (JNaN, [GraphNode (JNum 1) 1])]
     (JNum 1) JNaN = Inr None \<and>
   path_between [(JNum 1, [GraphNode JNaN 1]), (JNaN, [GraphNode (JNum 1) 1])]
     (JNum 1) JNaN [JNum 1, JNaN]"
  by code_simp

end
